theory Spec2Isabelle
  imports Main "HOL-Library.Sublist"
begin

section \<open>METAR CSV to JSON translator: a shallow embedding of metar\_translator.py\<close>

text \<open>
  The embedding follows \<^verbatim>\<open>scripts/metar_translation/metar_translator.py\<close>
  function by function and keeps its names.  Conventions:
  \<^item> a Python \<^verbatim>\<open>str\<close> is a \<^typ>\<open>string\<close>; a \<^typ>\<open>char\<close> stands for one code
    point below 256, and the character classes below are Python's Unicode classes
    restricted to that range;
  \<^item> \<^verbatim>\<open>Optional[str]\<close> is \<^typ>\<open>string option\<close>, \<^verbatim>\<open>None\<close> being \<^term>\<open>None\<close>;
  \<^item> a \<^verbatim>\<open>dict\<close> is a map; \<^verbatim>\<open>row.get(k)\<close> is \<open>dict_get row k\<close>, and
    \<^verbatim>\<open>k in row\<close> is \<open>row k \<noteq> None\<close>, that is \<open>k \<in> dom row\<close>;
  \<^item> the callables the program receives from outside its own file
    (\<^verbatim>\<open>float\<close>, \<^verbatim>\<open>pd.to_datetime\<close>) are parameters that return
    \<^term>\<open>None\<close> where the Python callable raises;
  \<^item> the compiled patterns of module \<^verbatim>\<open>re\<close> are terms of a small regular-expression
    datatype, run by a backtracking matcher that lists the ways to match in the
    order in which Python tries them.
\<close>

subsection \<open>Characters and trimming\<close>

text \<open>\<^verbatim>\<open>str.isspace\<close>, which is what \<^verbatim>\<open>str.strip()\<close> removes.\<close>

definition is_space :: "char \<Rightarrow> bool" where
  "is_space c =
     (let n = (of_char c :: nat)
      in (9 \<le> n \<and> n \<le> 13) \<or> (28 \<le> n \<and> n \<le> 32) \<or> n = 133 \<or> n = 160)"

text \<open>The class \<^verbatim>\<open>\d\<close> of a \<^verbatim>\<open>str\<close> pattern: decimal digits.\<close>

definition is_digit :: "char \<Rightarrow> bool" where
  "is_digit c = (let n = (of_char c :: nat) in 48 \<le> n \<and> n \<le> 57)"

text \<open>The class \<^verbatim>\<open>\w\<close> of a \<^verbatim>\<open>str\<close> pattern: alphanumerics and the underscore.\<close>

definition is_word :: "char \<Rightarrow> bool" where
  "is_word c =
     (let n = (of_char c :: nat)
      in (48 \<le> n \<and> n \<le> 57) \<or> (65 \<le> n \<and> n \<le> 90) \<or> n = 95 \<or> (97 \<le> n \<and> n \<le> 122)
         \<or> n = 170 \<or> n = 178 \<or> n = 179 \<or> n = 181 \<or> n = 185 \<or> n = 186
         \<or> (188 \<le> n \<and> n \<le> 190) \<or> (192 \<le> n \<and> n \<le> 214)
         \<or> (216 \<le> n \<and> n \<le> 246) \<or> (248 \<le> n \<and> n \<le> 255))"

definition strip :: "string \<Rightarrow> string" where
  "strip s = rev (dropWhile is_space (rev (dropWhile is_space s)))"

subsection \<open>Helpers\<close>

definition is_missing :: "string option \<Rightarrow> bool" where
  "is_missing s =
     (case s of
        None \<Rightarrow> True
      | Some t \<Rightarrow> strip t \<in> set [[], ''M'', ''NA'', ''None''])"

definition is_trace_token :: "string option \<Rightarrow> bool" where
  "is_trace_token s = (case s of None \<Rightarrow> False | Some t \<Rightarrow> strip t = ''T'')"

text \<open>
  The argument of \<^verbatim>\<open>cast\<close>: the integer literal of \<^verbatim>\<open>cast(0)\<close> or the trimmed
  string of \<^verbatim>\<open>cast(r)\<close>.  A cast returns \<^term>\<open>None\<close> where Python raises.
\<close>

datatype cast_arg = AInt int | AStr string

text \<open>
  The first component of the pair \<^verbatim>\<open>parse_numeric_field\<close> returns: \<^verbatim>\<open>None\<close>,
  a value made by \<^verbatim>\<open>cast\<close>, or the bare integer of the fallback \<^verbatim>\<open>return 0, True\<close>.
\<close>

datatype 'v pyval = PNone | PCast 'v | PInt int

definition parse_numeric_field ::
  "string option \<Rightarrow> (cast_arg \<Rightarrow> 'v option) \<Rightarrow> 'v pyval \<times> bool" where
  "parse_numeric_field raw cast =
     (if is_missing raw then (PNone, False)
      else
        (case raw of
           None \<Rightarrow> (PNone, False)
         | Some t \<Rightarrow>
             let r = strip t in
             if is_trace_token (Some r) then
               (case cast (AInt 0) of
                  Some z \<Rightarrow> (PCast z, True)
                | None \<Rightarrow> (PInt 0, True))
             else
               (case cast (AStr r) of
                  Some v \<Rightarrow> (PCast v, False)
                | None \<Rightarrow> (PNone, False))))"

subsection \<open>Regular expressions as module re runs them\<close>

text \<open>
  The constructs the five compiled patterns and the inline token pattern use.
  \<open>RCls P\<close> is one character of a class, \<open>RPlus P\<close> a greedy non-empty run of a
  class (\<^verbatim>\<open>\w+\<close>), \<open>ROpt\<close> the greedy \<^verbatim>\<open>?\<close>, \<open>RGrp i\<close> capturing group number \<open>i\<close>
  and \<open>RWordB\<close> the boundary \<^verbatim>\<open>\b\<close>.
\<close>

datatype re =
    REps
  | RLit char
  | RCls "char \<Rightarrow> bool"
  | RPlus "char \<Rightarrow> bool"
  | RSeq re re
  | RAlt re re
  | ROpt re
  | RGrp nat re
  | RWordB

text \<open>
  A matcher state: the character before the current position (for \<^verbatim>\<open>\b\<close>), the
  text still to read, and the groups captured so far.
\<close>

type_synonym caps = "nat \<Rightarrow> string option"
type_synonym mstate = "char option \<times> string \<times> caps"

definition word_opt :: "char option \<Rightarrow> bool" where
  "word_opt c = (case c of None \<Rightarrow> False | Some x \<Rightarrow> is_word x)"

fun plus_runs :: "(char \<Rightarrow> bool) \<Rightarrow> string \<Rightarrow> caps \<Rightarrow> mstate list" where
  "plus_runs P [] g = []"
| "plus_runs P (x # xs) g = (if P x then plus_runs P xs g @ [(Some x, xs, g)] else [])"

text \<open>
  All the ways to match at the current position, in the order a backtracking
  matcher tries them: the head of the list is the match Python reports.
\<close>

fun rmatch :: "re \<Rightarrow> mstate \<Rightarrow> mstate list" where
  "rmatch REps st = [st]"
| "rmatch (RLit c) (p, s, g) =
     (case s of [] \<Rightarrow> [] | x # xs \<Rightarrow> if x = c then [(Some x, xs, g)] else [])"
| "rmatch (RCls P) (p, s, g) =
     (case s of [] \<Rightarrow> [] | x # xs \<Rightarrow> if P x then [(Some x, xs, g)] else [])"
| "rmatch (RPlus P) (p, s, g) = plus_runs P s g"
| "rmatch (RSeq a b) st = concat (map (rmatch b) (rmatch a st))"
| "rmatch (RAlt a b) st = rmatch a st @ rmatch b st"
| "rmatch (ROpt a) st = rmatch a st @ [st]"
| "rmatch (RGrp i a) (p, s, g) =
     map (\<lambda>(p', s', g'). (p', s', g'(i \<mapsto> take (length s - length s') s)))
       (rmatch a (p, s, g))"
| "rmatch RWordB (p, s, g) =
     (if word_opt p \<noteq> word_opt (case s of [] \<Rightarrow> None | x # _ \<Rightarrow> Some x)
      then [(p, s, g)] else [])"

text \<open>Pattern syntax: concatenation, alternation, literals and counted repetition.\<close>

fun rseq :: "re list \<Rightarrow> re" where
  "rseq [] = REps"
| "rseq [r] = r"
| "rseq (r # rs) = RSeq r (rseq rs)"

fun alts :: "re list \<Rightarrow> re" where
  "alts [] = RCls (\<lambda>_. False)"
| "alts [r] = r"
| "alts (r # rs) = RAlt r (alts rs)"

definition lits :: "string \<Rightarrow> re" where
  "lits w = rseq (map RLit w)"

fun rep :: "nat \<Rightarrow> re \<Rightarrow> re" where
  "rep 0 r = REps"
| "rep (Suc 0) r = r"
| "rep (Suc n) r = RSeq r (rep n r)"

text \<open>\<open>rep_upto k r\<close> is \<^verbatim>\<open>r{0,k}\<close>, greedy; \<open>rep_range m n r\<close> is \<^verbatim>\<open>r{m,n}\<close>.\<close>

fun rep_upto :: "nat \<Rightarrow> re \<Rightarrow> re" where
  "rep_upto 0 r = REps"
| "rep_upto (Suc 0) r = ROpt r"
| "rep_upto (Suc n) r = ROpt (RSeq r (rep_upto n r))"

definition rep_range :: "nat \<Rightarrow> nat \<Rightarrow> re \<Rightarrow> re" where
  "rep_range m n r = RSeq (rep m r) (rep_upto (n - m) r)"

text \<open>
  \<^verbatim>\<open>pattern.search\<close>: the first start position, left to right, with a match.
  The result is the text from the start position on and the matcher's final
  state, whose group 0 is the whole match.  The flag says that an empty match
  is not accepted at the first position (\<^verbatim>\<open>findall\<close> sets it after an empty
  match).
\<close>

definition match_at :: "re \<Rightarrow> bool \<Rightarrow> char option \<Rightarrow> string \<Rightarrow> mstate list" where
  "match_at r adv p s =
     (let ms = rmatch (RGrp 0 r) (p, s, Map.empty)
      in if adv then filter (\<lambda>(p', s', g'). length s' < length s) ms else ms)"

fun search_from :: "re \<Rightarrow> bool \<Rightarrow> char option \<Rightarrow> string \<Rightarrow> (string \<times> mstate) option" where
  "search_from r adv p [] =
     (case match_at r adv p [] of m # _ \<Rightarrow> Some ([], m) | [] \<Rightarrow> None)"
| "search_from r adv p (x # xs) =
     (case match_at r adv p (x # xs) of
        m # _ \<Rightarrow> Some (x # xs, m)
      | [] \<Rightarrow> search_from r False (Some x) xs)"

definition search :: "re \<Rightarrow> string \<Rightarrow> caps option" where
  "search r s = map_option (\<lambda>(start, p', s', g). g) (search_from r False None s)"

text \<open>The matcher only moves forward: what is left to read is a suffix of the text.\<close>

lemma plus_runs_suffix:
  "(p', s', g') \<in> set (plus_runs P s g) \<Longrightarrow> suffix s' s \<and> length s' < length s"
proof (induction s)
  case Nil
  then show ?case by simp
next
  case (Cons x xs)
  then show ?case
    by (auto split: if_splits simp: suffix_Cons)
qed

lemma rmatch_suffix:
  "(p', s', g') \<in> set (rmatch r (p, s, g)) \<Longrightarrow> suffix s' s"
proof (induction r arbitrary: p s g p' s' g')
  case (RPlus P)
  then show ?case using plus_runs_suffix[of p' s' g' P s g] by simp
next
  case (RSeq a b)
  then show ?case by (fastforce intro: suffix_order.trans)
next
  case (RWordB)
  then show ?case by (auto split: if_splits)
qed (auto split: list.splits if_splits simp: suffix_Cons)

lemma match_at_suffix:
  "(p', s', g') \<in> set (match_at r adv p s) \<Longrightarrow>
     suffix s' s \<and> (adv \<longrightarrow> length s' < length s)"
  using rmatch_suffix[of p' s' g' "RGrp 0 r" p s Map.empty]
  by (auto simp: match_at_def Let_def split: if_splits)

lemma search_from_suffix:
  "search_from r adv p s = Some (start, p', s', g') \<Longrightarrow>
     suffix start s \<and> suffix s' start \<and> (adv \<longrightarrow> length s' < length s)"
proof (induction r adv p s rule: search_from.induct)
  case (1 r adv p)
  then show ?case
    using match_at_suffix[of p' s' g' r adv p "[]"]
    by (auto split: list.splits)
next
  case (2 r adv p x xs)
  show ?case
  proof (cases "match_at r adv p (x # xs)")
    case Nil
    with 2 have "suffix start xs \<and> suffix s' start" by simp
    then show ?thesis
      using suffix_length_le[of s' start] suffix_length_le[of start xs]
      by (auto simp: suffix_Cons)
  next
    case (Cons m ms)
    with 2 have "m = (p', s', g')" "start = x # xs" by auto
    with Cons show ?thesis
      using match_at_suffix[of p' s' g' r adv p "x # xs"] by auto
  qed
qed

text \<open>
  \<^verbatim>\<open>pattern.findall\<close>: search, record the match, search again from its end; after
  an empty match the next one must advance.  The result lists the groups of each
  match, left to right.
\<close>

function findall_from :: "re \<Rightarrow> bool \<Rightarrow> char option \<Rightarrow> string \<Rightarrow> caps list" where
  "findall_from r adv p s =
     (case search_from r adv p s of
        None \<Rightarrow> []
      | Some (start, p', s', g) \<Rightarrow> g # findall_from r (length s' = length start) p' s')"
  by pat_completeness auto
termination
proof (relation "measures [\<lambda>(r, adv, p, s). length s, \<lambda>(r, adv, p, s). if adv then 0 else 1]",
    goal_cases)
  case 1
  then show ?case by simp
next
  case (2 r adv p s x2 start y p' ya s' g)
  then have h: "search_from r adv p s = Some (start, p', s', g)" by simp
  from search_from_suffix[OF h]
  have a: "suffix start s" and b: "suffix s' start" and c: "adv \<longrightarrow> length s' < length s"
    by auto
  have le: "length s' \<le> length start" "length start \<le> length s"
    using a b by (auto dest: suffix_length_le)
  show ?case using le c by auto
qed

definition findall :: "re \<Rightarrow> string \<Rightarrow> caps list" where
  "findall r s = findall_from r False None s"

text \<open>An entry of a \<^verbatim>\<open>findall\<close> tuple: the empty string for a group that took no part.\<close>

definition group_str :: "caps \<Rightarrow> nat \<Rightarrow> string" where
  "group_str g i = (case g i of None \<Rightarrow> [] | Some v \<Rightarrow> v)"

text \<open>The group numbers a pattern can set.\<close>

fun grps :: "re \<Rightarrow> nat set" where
  "grps (RGrp i a) = insert i (grps a)"
| "grps (RSeq a b) = grps a \<union> grps b"
| "grps (RAlt a b) = grps a \<union> grps b"
| "grps (ROpt a) = grps a"
| "grps r = {}"

subsection \<open>The compiled patterns\<close>

abbreviation digit :: re where
  "digit \<equiv> RCls is_digit"

text \<open>
  \<^verbatim>\<open>(?P<dir>\d{3}|VRB)(?P<spd>\d{2,3})(G(?P<gst>\d{2,3}))?KT\<close>;
  the groups \<^verbatim>\<open>dir\<close>, \<^verbatim>\<open>spd\<close> and \<^verbatim>\<open>gst\<close> are numbers 1, 2 and 4.
\<close>

definition wind_re :: re where
  "wind_re =
     rseq [RGrp 1 (RAlt (rep 3 digit) (lits ''VRB'')),
           RGrp 2 (rep_range 2 3 digit),
           ROpt (RGrp 3 (RSeq (RLit CHR ''G'') (RGrp 4 (rep_range 2 3 digit)))),
           lits ''KT'']"

text \<open>\<^verbatim>\<open>(?P<vis>\d{1,2}(?: ?/?\d)?SM|M?1/4|M1/2)\<close>; the group \<^verbatim>\<open>vis\<close> is number 1.\<close>

definition vis_re :: re where
  "vis_re =
     RGrp 1
       (alts [rseq [rep_range 1 2 digit,
                    ROpt (rseq [ROpt (RLit CHR '' ''), ROpt (RLit CHR ''/''), digit]),
                    lits ''SM''],
              RSeq (ROpt (RLit CHR ''M'')) (lits ''1/4''),
              lits ''M1/2''])"

text \<open>\<^verbatim>\<open>A(?P<alt>\d{4})\<close>; the group \<^verbatim>\<open>alt\<close> is number 1.\<close>

definition altimeter_re :: re where
  "altimeter_re = RSeq (RLit CHR ''A'') (RGrp 1 (rep 4 digit))"

text \<open>\<^verbatim>\<open>\b(FEW|SCT|BKN|OVC|VV)(\d{3}|\d{3}CB|\d{3}TCU)?\b\<close>\<close>

definition cloud_re :: re where
  "cloud_re =
     rseq [RWordB,
           RGrp 1 (alts (map lits [''FEW'', ''SCT'', ''BKN'', ''OVC'', ''VV''])),
           ROpt (RGrp 2 (alts [rep 3 digit,
                               RSeq (rep 3 digit) (lits ''CB''),
                               RSeq (rep 3 digit) (lits ''TCU'')])),
           RWordB]"

text \<open>
  \<^verbatim>\<open> (-|\+)?(DZ|RA|SN|SG|IC|PL|GR|GS|BR|FG|TS|SH|VA|HZ|BL|DR|SQ|FS|SS|DS)\b\<close>,
  with the alternatives of its second group listed apart.
\<close>

definition wx_names :: "string list" where
  "wx_names =
     [''DZ'', ''RA'', ''SN'', ''SG'', ''IC'', ''PL'', ''GR'', ''GS'', ''BR'', ''FG'',
      ''TS'', ''SH'', ''VA'', ''HZ'', ''BL'', ''DR'', ''SQ'', ''FS'', ''SS'', ''DS'']"

definition wxcode_re :: re where
  "wxcode_re =
     rseq [RLit CHR '' '',
           ROpt (RGrp 1 (RAlt (RLit CHR ''-'') (RLit CHR ''+''))),
           RGrp 2 (alts (map lits wx_names)),
           RWordB]"

text \<open>The inline pattern \<^verbatim>\<open>[+-]?\w+\<close> of \<^verbatim>\<open>row_to_record\<close>.\<close>

definition token_re :: re where
  "token_re = RSeq (ROpt (RCls (\<lambda>c. c = CHR ''+'' \<or> c = CHR ''-''))) (RPlus is_word)"

subsection \<open>Lightweight METAR text parsing\<close>

text \<open>The values \<^verbatim>\<open>parse_metar_text\<close> stores in its dictionary.\<close>

datatype pval = VNone | VStr string | VInt int | VList "string list"

definition opt_pval :: "string option \<Rightarrow> pval" where
  "opt_pval x = (case x of None \<Rightarrow> VNone | Some w \<Rightarrow> VStr w)"

text \<open>Python's truth value of an \<^verbatim>\<open>Optional[str]\<close>.\<close>

definition truthy :: "string option \<Rightarrow> bool" where
  "truthy x = (case x of None \<Rightarrow> False | Some w \<Rightarrow> w \<noteq> [])"

text \<open>
  \<^verbatim>\<open>int(w)\<close> for a non-empty string of decimal digits, the only strings the
  program passes to it; \<^term>\<open>None\<close> stands for the exception on any other string.
\<close>

definition digit_val :: "char \<Rightarrow> int" where
  "digit_val c = int (of_char c) - 48"

definition py_int :: "string \<Rightarrow> int option" where
  "py_int w =
     (if w \<noteq> [] \<and> list_all is_digit w
      then Some (foldl (\<lambda>a c. 10 * a + digit_val c) 0 w) else None)"

text \<open>A non-empty string of decimal digits: what \<^verbatim>\<open>int\<close> accepts here.\<close>

definition digits_ne :: "string \<Rightarrow> bool" where
  "digits_ne w = (w \<noteq> [] \<and> list_all is_digit w)"

definition wind_step :: "string \<Rightarrow> (string \<rightharpoonup> pval) \<Rightarrow> (string \<rightharpoonup> pval) option" where
  "wind_step s out =
     (case search wind_re s of
        None \<Rightarrow> Some out
      | Some m \<Rightarrow>
          (case Option.bind (m 2) py_int of
             None \<Rightarrow> None
           | Some spd \<Rightarrow>
               (case (if truthy (m 4) then map_option VInt (Option.bind (m 4) py_int)
                      else Some VNone) of
                  None \<Rightarrow> None
                | Some gst \<Rightarrow>
                    Some (out(''wind_dir'' \<mapsto> opt_pval (m 1),
                              ''wind_spd_kt'' \<mapsto> VInt spd,
                              ''wind_gust_kt'' \<mapsto> gst)))))"

definition vis_step :: "string \<Rightarrow> (string \<rightharpoonup> pval) \<Rightarrow> (string \<rightharpoonup> pval)" where
  "vis_step s out =
     (case search vis_re s of
        None \<Rightarrow> out
      | Some vis \<Rightarrow> out(''visibility_raw'' \<mapsto> opt_pval (vis 1)))"

definition altimeter_step :: "string \<Rightarrow> (string \<rightharpoonup> pval) \<Rightarrow> (string \<rightharpoonup> pval)" where
  "altimeter_step s out =
     (case search altimeter_re s of
        None \<Rightarrow> out
      | Some a \<Rightarrow> out(''altimeter_A'' \<mapsto> opt_pval (a 1)))"

definition cloud_step :: "string \<Rightarrow> (string \<rightharpoonup> pval) \<Rightarrow> (string \<rightharpoonup> pval)" where
  "cloud_step s out =
     (let clouds = findall cloud_re s
      in if clouds \<noteq> []
         then out(''clouds'' \<mapsto> VList (map (\<lambda>c. strip (group_str c 1 @ group_str c 2)) clouds))
         else out)"

definition wx_step :: "string \<Rightarrow> (string \<rightharpoonup> pval) \<Rightarrow> (string \<rightharpoonup> pval)" where
  "wx_step s out =
     (let wx = findall wxcode_re (s @ '' '')
      in if wx \<noteq> [] then out(''wx_codes'' \<mapsto> VList (map (\<lambda>w. group_str w 2) wx)) else out)"

text \<open>
  The result is \<^term>\<open>None\<close> where \<^verbatim>\<open>int(...)\<close> would raise; \<open>parse_metar_text_total\<close>
  below shows that this never happens.
\<close>

definition parse_metar_text :: "string option \<Rightarrow> (string \<rightharpoonup> pval) option" where
  "parse_metar_text metar =
     (if \<not> truthy metar \<or> is_missing metar then Some Map.empty
      else
        (case metar of
           None \<Rightarrow> Some Map.empty
         | Some t \<Rightarrow>
             let s = strip t in
             (case wind_step s Map.empty of
                None \<Rightarrow> None
              | Some out \<Rightarrow>
                  Some (wx_step s (cloud_step s (altimeter_step s (vis_step s out)))))))"

subsection \<open>Converting a CSV row into a record\<close>

record cloud_group =
  type_raw :: "string option"
  height_raw :: "string option"

text \<open>The values of a record: what \<^verbatim>\<open>row_to_record\<close> stores under its keys.\<close>

datatype ('v, 't) jval =
    JNone
  | JStr string
  | JBool bool
  | JCast 'v
  | JInt int
  | JTime 't
  | JGroups "cloud_group list"
  | JList "string list"
  | JDict "string \<Rightarrow> pval option"

definition opt_str :: "string option \<Rightarrow> ('v, 't) jval" where
  "opt_str x = (case x of None \<Rightarrow> JNone | Some w \<Rightarrow> JStr w)"

definition of_pyval :: "'v pyval \<Rightarrow> ('v, 't) jval" where
  "of_pyval v = (case v of PNone \<Rightarrow> JNone | PCast x \<Rightarrow> JCast x | PInt i \<Rightarrow> JInt i)"

text \<open>
  A row maps a column name to its value, which \<^verbatim>\<open>csv.DictReader\<close> leaves
  \<^verbatim>\<open>None\<close> for a short line; \<^verbatim>\<open>row.get(k)\<close> is \<^verbatim>\<open>None\<close> for an absent key too.
\<close>

type_synonym row = "string \<Rightarrow> string option option"

definition dict_get :: "row \<Rightarrow> string \<Rightarrow> string option" where
  "dict_get row k = (case row k of None \<Rightarrow> None | Some v \<Rightarrow> v)"

text \<open>The list \<^verbatim>\<open>numeric_specs\<close>; every entry casts with \<^verbatim>\<open>float\<close>, a parameter here.\<close>

definition numeric_specs ::
  "(cast_arg \<Rightarrow> 'v option) \<Rightarrow> (string \<times> string \<times> (cast_arg \<Rightarrow> 'v option)) list" where
  "numeric_specs float =
     [(''tmpf'', ''tmpf_F'', float),
      (''dwpf'', ''dwpf_F'', float),
      (''relh'', ''relh_pct'', float),
      (''drct'', ''wind_dir_deg'', float),
      (''sknt'', ''wind_spd_kt'', float),
      (''p01i'', ''precip_1hr_in'', float),
      (''alti'', ''altim_inHg'', float),
      (''mslp'', ''mslp_hPa'', float),
      (''vsby'', ''visibility_sm'', float),
      (''gust'', ''gust_kt'', float),
      (''snowdepth'', ''snowdepth_in'', float)]"

text \<open>The body of the loop over \<^verbatim>\<open>numeric_specs\<close>.\<close>

definition numeric_field ::
  "row \<Rightarrow> (string \<rightharpoonup> ('v, 't) jval) \<Rightarrow> string \<times> string \<times> (cast_arg \<Rightarrow> 'v option)
     \<Rightarrow> (string \<rightharpoonup> ('v, 't) jval)" where
  "numeric_field row rec spec =
     (case spec of (col, outname, cast) \<Rightarrow>
        if row col \<noteq> None then
          (case parse_numeric_field (dict_get row col) cast of (v, trace) \<Rightarrow>
             rec(outname @ ''_raw'' \<mapsto> opt_str (dict_get row col),
                 outname @ ''_v'' \<mapsto> of_pyval v,
                 outname @ ''_is_trace'' \<mapsto> JBool trace))
        else rec)"

text \<open>\<^verbatim>\<open>str(i)\<close> inside the f-strings \<^verbatim>\<open>f"skyc{i}"\<close> and \<^verbatim>\<open>f"skyl{i}"\<close>.\<close>

fun str_nat :: "nat \<Rightarrow> string" where
  "str_nat n =
     (if n < 10 then [char_of (48 + n)]
      else str_nat (n div 10) @ [char_of (48 + n mod 10)])"

text \<open>The loop over \<^verbatim>\<open>range(1, 5)\<close> that collects the cloud groups.\<close>

definition cloud_groups :: "row \<Rightarrow> cloud_group list" where
  "cloud_groups row =
     concat (map (\<lambda>i.
        let ctype = dict_get row (''skyc'' @ str_nat i);
            cheight = dict_get row (''skyl'' @ str_nat i)
        in if \<not> is_missing ctype \<or> \<not> is_missing cheight
           then [\<lparr>type_raw = ctype, height_raw = cheight\<rparr>] else []) [1, 2, 3, 4])"

text \<open>The timestamp: \<^verbatim>\<open>pd.to_datetime\<close> is a parameter, \<^term>\<open>None\<close> where it raises.\<close>

definition parse_valid :: "(string \<Rightarrow> 't option) \<Rightarrow> string option \<Rightarrow> ('v, 't) jval" where
  "parse_valid to_datetime raw_valid =
     (case raw_valid of
        None \<Rightarrow> JNone
      | Some t \<Rightarrow>
          if t \<noteq> [] \<and> strip t \<noteq> ''M''
          then (case to_datetime t of None \<Rightarrow> JNone | Some d \<Rightarrow> JTime d)
          else JNone)"

text \<open>The body of the final loop over \<^verbatim>\<open>csv_fieldnames\<close>.\<close>

definition passthrough ::
  "row \<Rightarrow> (string \<rightharpoonup> ('v, 't) jval) \<Rightarrow> string \<Rightarrow> (string \<rightharpoonup> ('v, 't) jval)" where
  "passthrough row rec k =
     (if rec k = None then rec(k @ ''_raw'' \<mapsto> opt_str (dict_get row k)) else rec)"

text \<open>The record after the first three assignments of \<^verbatim>\<open>row_to_record\<close>.\<close>

definition base_fields ::
  "(string \<Rightarrow> 't option) \<Rightarrow> row \<Rightarrow> (string \<rightharpoonup> ('v, 't) jval)" where
  "base_fields to_datetime row =
     [''station'' \<mapsto> opt_str (dict_get row ''station''),
      ''valid_raw'' \<mapsto> opt_str (dict_get row ''valid''),
      ''valid'' \<mapsto> parse_valid to_datetime (dict_get row ''valid'')]"

text \<open>
  The record before the final loop, given the parsed text, and the whole function.
  \<^verbatim>\<open>row_to_record\<close> is \<^term>\<open>None\<close> where \<^verbatim>\<open>parse_metar_text\<close> would raise.
\<close>

definition record_fields ::
  "(cast_arg \<Rightarrow> 'v option) \<Rightarrow> (string \<Rightarrow> 't option) \<Rightarrow> row \<Rightarrow> (string \<rightharpoonup> pval)
     \<Rightarrow> (string \<rightharpoonup> ('v, 't) jval)" where
  "record_fields float to_datetime row parsed =
     (let rec = Map.empty;
          rec = rec(''station'' \<mapsto> opt_str (dict_get row ''station''));
          raw_valid = dict_get row ''valid'';
          rec = rec(''valid_raw'' \<mapsto> opt_str raw_valid);
          rec = rec(''valid'' \<mapsto> parse_valid to_datetime raw_valid);
          rec = foldl (numeric_field row) rec (numeric_specs float);
          groups = cloud_groups row;
          rec = (if groups \<noteq> [] then rec(''cloud_groups_raw'' \<mapsto> JGroups groups) else rec);
          wxc = dict_get row ''wxcodes'';
          rec = rec(''wxcodes_raw'' \<mapsto> opt_str wxc);
          rec = (case wxc of
                   None \<Rightarrow> rec
                 | Some w \<Rightarrow>
                     if truthy wxc \<and> \<not> is_missing wxc
                     then rec(''wxcodes_tokens'' \<mapsto>
                            JList (map (\<lambda>m. group_str m 0) (findall token_re w)))
                     else rec);
          metar_raw = dict_get row ''metar'';
          rec = rec(''metar_raw'' \<mapsto> opt_str metar_raw);
          rec = rec(''metar_parsed'' \<mapsto> JDict parsed)
      in rec)"

definition row_to_record ::
  "(cast_arg \<Rightarrow> 'v option) \<Rightarrow> (string \<Rightarrow> 't option) \<Rightarrow> row \<Rightarrow> string list
     \<Rightarrow> (string \<rightharpoonup> ('v, 't) jval) option" where
  "row_to_record float to_datetime row csv_fieldnames =
     (case parse_metar_text (dict_get row ''metar'') of
        None \<Rightarrow> None
      | Some parsed \<Rightarrow>
          Some (foldl (passthrough row) (record_fields float to_datetime row parsed)
                  csv_fieldnames))"

text \<open>The value under a key of the record the function returns.\<close>

definition field :: "(string \<rightharpoonup> 'a) option \<Rightarrow> string \<Rightarrow> 'a option" where
  "field r k = (case r of None \<Rightarrow> None | Some m \<Rightarrow> m k)"


text \<open>
  The character before a position: the matcher is entered with it after the scan has
  stepped over the prefix \<^verbatim>\<open>u\<close>.
\<close>

definition prev_char :: "char option \<Rightarrow> string \<Rightarrow> char option" where
  "prev_char p u = (if u = [] then p else Some (last u))"

text \<open>The intensity prefixes the weather pattern accepts: none, \<^verbatim>\<open>-\<close> or \<^verbatim>\<open>+\<close>.\<close>

definition wx_signs :: "string set" where
  "wx_signs = {[], ''-'', ''+''}"

section \<open>Properties\<close>

subsection \<open>Trimming\<close>

lemma strip_head_not_space: "strip s = x # xs \<Longrightarrow> \<not> is_space x"
proof -
  assume a: "strip s = x # xs"
  define u where "u = dropWhile is_space s"
  have s: "strip s = rev (dropWhile is_space (rev u))"
    by (simp add: strip_def u_def)
  have ne: "u \<noteq> []"
  proof
    assume "u = []"
    with s have "strip s = []" by simp
    with a show False by simp
  qed
  then obtain y ys where u: "u = y # ys" by (cases u) auto
  have "\<not> is_space (hd u)" using ne unfolding u_def by (rule hd_dropWhile)
  with u have ny: "\<not> is_space y" by simp
  have "dropWhile is_space (rev u) = dropWhile is_space (rev ys) @ [y]"
    using u ny by (simp add: dropWhile_append3)
  with s have "strip s = y # rev (dropWhile is_space (rev ys))"
    by simp
  with a ny show ?thesis by simp
qed

lemma strip_last_not_space: "strip s \<noteq> [] \<Longrightarrow> \<not> is_space (last (strip s))"
proof -
  assume a: "strip s \<noteq> []"
  let ?v = "dropWhile is_space (rev (dropWhile is_space s))"
  have s: "strip s = rev ?v" by (simp add: strip_def)
  with a have ne: "?v \<noteq> []" by simp
  then have "\<not> is_space (hd ?v)" by (rule hd_dropWhile)
  then show ?thesis using s ne by (simp add: last_rev)
qed

lemma dropWhile_self: "xs \<noteq> [] \<Longrightarrow> \<not> P (hd xs) \<Longrightarrow> dropWhile P xs = xs"
  by (cases xs) auto

lemma strip_idem: "strip (strip s) = strip s"
proof (cases "strip s")
  case Nil
  have "strip [] = []" by (simp add: strip_def)
  with Nil show ?thesis by simp
next
  case (Cons x xs)
  then have 1: "\<not> is_space x" by (rule strip_head_not_space)
  have 2: "\<not> is_space (last (strip s))" using Cons strip_last_not_space[of s] by simp
  have a: "dropWhile is_space (strip s) = strip s" using Cons 1 by simp
  have "rev (strip s) \<noteq> []" using Cons by simp
  moreover have "hd (rev (strip s)) = last (strip s)" using Cons by (simp add: hd_rev)
  ultimately have b: "dropWhile is_space (rev (strip s)) = rev (strip s)"
    using 2 dropWhile_self[of "rev (strip s)" is_space] by simp
  show ?thesis
    unfolding strip_def[of "strip s"] a b by simp
qed


subsection \<open>The field normalizer\<close>

text \<open>
  The spec's \<^verbatim>\<open>normalize\<close> is \<^verbatim>\<open>parse_numeric_field\<close> together with the three
  assignments of the loop over \<^verbatim>\<open>numeric_specs\<close>, which store the raw string
  beside the pair the function returns.  \<^verbatim>\<open>parse_numeric_field\<close> has no error
  result: both of its \<^verbatim>\<open>try\<close> blocks catch what the cast raises.
\<close>

text \<open>
  Claim C1.  A raw token that is null or that, once trimmed, is the empty string,
  \<^verbatim>\<open>M\<close>, \<^verbatim>\<open>NA\<close> or \<^verbatim>\<open>None\<close> gives the pair (null, false), and the record of a
  row that holds it under a numeric column gets the raw token unchanged, a null
  value and a false trace flag.
\<close>

theorem normalize_missing:
  assumes "raw = None \<or> (\<exists>t. raw = Some t \<and> strip t \<in> {[], ''M'', ''NA'', ''None''})"
  shows "parse_numeric_field raw cast = (PNone, False) \<and>
         (row col = Some raw \<longrightarrow>
            numeric_field row rec (col, outname, cast) (outname @ ''_raw'') = Some (opt_str raw) \<and>
            numeric_field row rec (col, outname, cast) (outname @ ''_v'') = Some JNone \<and>
            numeric_field row rec (col, outname, cast) (outname @ ''_is_trace'') = Some (JBool False))"
proof -
  from assms have m: "is_missing raw"
    by (auto simp: is_missing_def)
  then have p: "parse_numeric_field raw cast = (PNone, False)"
    by (simp add: parse_numeric_field_def)
  show ?thesis
    using p by (simp add: numeric_field_def dict_get_def of_pyval_def)
qed

theorem normalize_missing_witness:
  "strip '' NA '' \<in> {[], ''M'', ''NA'', ''None''} \<and>
   parse_numeric_field (Some '' NA '') (\<lambda>a. None :: int option) = (PNone, False) \<and>
   numeric_field [''tmpf'' \<mapsto> Some '' NA ''] Map.empty
      (''tmpf'', ''tmpf_F'', \<lambda>a. None :: int option) ''tmpf_F_raw''
     = Some (JStr '' NA '' :: (int, unit) jval) \<and>
   numeric_field [''tmpf'' \<mapsto> Some '' NA ''] Map.empty
      (''tmpf'', ''tmpf_F'', \<lambda>a. None :: int option) ''tmpf_F_v''
     = Some (JNone :: (int, unit) jval) \<and>
   numeric_field [''tmpf'' \<mapsto> Some '' NA ''] Map.empty
      (''tmpf'', ''tmpf_F'', \<lambda>a. None :: int option) ''tmpf_F_is_trace''
     = Some (JBool False :: (int, unit) jval)"
  using normalize_missing[of "Some '' NA ''" "\<lambda>a. None :: int option"
      "[''tmpf'' \<mapsto> Some '' NA '']" "''tmpf''"
      "Map.empty :: string \<rightharpoonup> (int, unit) jval" "''tmpf_F''"]
  by (simp add: strip_def is_space_def opt_str_def)

text \<open>
  Claim C2.  A raw token that is \<^verbatim>\<open>T\<close> once trimmed (such a token is never
  missing) gives, for a cast that accepts the literal zero, the pair (cast(0), true),
  and the record keeps the raw token beside them.
\<close>

theorem normalize_trace:
  assumes "strip t = ''T''" and "cast (AInt 0) = Some z"
  shows "\<not> is_missing (Some t) \<and>
         parse_numeric_field (Some t) cast = (PCast z, True) \<and>
         (row col = Some (Some t) \<longrightarrow>
            numeric_field row rec (col, outname, cast) (outname @ ''_raw'') = Some (JStr t) \<and>
            numeric_field row rec (col, outname, cast) (outname @ ''_v'') = Some (JCast z) \<and>
            numeric_field row rec (col, outname, cast) (outname @ ''_is_trace'') = Some (JBool True))"
proof -
  have "strip ''T'' = ''T''" by (simp add: strip_def is_space_def)
  with assms have p: "parse_numeric_field (Some t) cast = (PCast z, True)"
    by (simp add: parse_numeric_field_def is_missing_def is_trace_token_def)
  have m: "\<not> is_missing (Some t)"
    using assms by (simp add: is_missing_def)
  show ?thesis
    using p m by (simp add: numeric_field_def dict_get_def of_pyval_def opt_str_def)
qed

theorem normalize_trace_witness:
  "strip '' T'' = ''T'' \<and>
   parse_numeric_field (Some '' T'') (\<lambda>a. case a of AInt i \<Rightarrow> Some i | AStr w \<Rightarrow> py_int w)
     = (PCast 0, True) \<and>
   numeric_field [''p01i'' \<mapsto> Some '' T''] Map.empty
      (''p01i'', ''precip_1hr_in'', \<lambda>a. case a of AInt i \<Rightarrow> Some i | AStr w \<Rightarrow> py_int w)
      ''precip_1hr_in_raw'' = Some (JStr '' T'' :: (int, unit) jval) \<and>
   numeric_field [''p01i'' \<mapsto> Some '' T''] Map.empty
      (''p01i'', ''precip_1hr_in'', \<lambda>a. case a of AInt i \<Rightarrow> Some i | AStr w \<Rightarrow> py_int w)
      ''precip_1hr_in_v'' = Some (JCast 0 :: (int, unit) jval) \<and>
   numeric_field [''p01i'' \<mapsto> Some '' T''] Map.empty
      (''p01i'', ''precip_1hr_in'', \<lambda>a. case a of AInt i \<Rightarrow> Some i | AStr w \<Rightarrow> py_int w)
      ''precip_1hr_in_is_trace'' = Some (JBool True :: (int, unit) jval)"
  using normalize_trace[of "'' T''" "\<lambda>a. case a of AInt i \<Rightarrow> Some i | AStr w \<Rightarrow> py_int w" 0
      "[''p01i'' \<mapsto> Some '' T'']" "''p01i''"
      "Map.empty :: string \<rightharpoonup> (int, unit) jval" "''precip_1hr_in''"]
  by (simp add: strip_def is_space_def)

text \<open>
  Claim C3.  A raw token that is neither missing nor the trace token and on which
  the cast fails gives the pair (null, false) and not an error, and the record
  keeps the raw token as it was.
\<close>

theorem normalize_malformed:
  assumes "strip t \<notin> {[], ''M'', ''NA'', ''None''}" and "strip t \<noteq> ''T''"
    and "cast (AStr (strip t)) = None"
  shows "parse_numeric_field (Some t) cast = (PNone, False) \<and>
         (row col = Some (Some t) \<longrightarrow>
            numeric_field row rec (col, outname, cast) (outname @ ''_raw'') = Some (JStr t) \<and>
            numeric_field row rec (col, outname, cast) (outname @ ''_v'') = Some JNone \<and>
            numeric_field row rec (col, outname, cast) (outname @ ''_is_trace'') = Some (JBool False))"
proof -
  from assms have p: "parse_numeric_field (Some t) cast = (PNone, False)"
    by (simp add: parse_numeric_field_def is_missing_def is_trace_token_def strip_idem)
  show ?thesis
    using p by (simp add: numeric_field_def dict_get_def of_pyval_def opt_str_def)
qed

theorem normalize_malformed_witness:
  "strip '' 12x'' \<notin> {[], ''M'', ''NA'', ''None''} \<and> strip '' 12x'' \<noteq> ''T'' \<and>
   py_int (strip '' 12x'') = None \<and>
   parse_numeric_field (Some '' 12x'') (\<lambda>a. case a of AInt i \<Rightarrow> Some i | AStr w \<Rightarrow> py_int w)
     = (PNone, False) \<and>
   numeric_field [''tmpf'' \<mapsto> Some '' 12x''] Map.empty
      (''tmpf'', ''tmpf_F'', \<lambda>a. case a of AInt i \<Rightarrow> Some i | AStr w \<Rightarrow> py_int w)
      ''tmpf_F_raw'' = Some (JStr '' 12x'' :: (int, unit) jval) \<and>
   numeric_field [''tmpf'' \<mapsto> Some '' 12x''] Map.empty
      (''tmpf'', ''tmpf_F'', \<lambda>a. case a of AInt i \<Rightarrow> Some i | AStr w \<Rightarrow> py_int w)
      ''tmpf_F_v'' = Some (JNone :: (int, unit) jval) \<and>
   numeric_field [''tmpf'' \<mapsto> Some '' 12x''] Map.empty
      (''tmpf'', ''tmpf_F'', \<lambda>a. case a of AInt i \<Rightarrow> Some i | AStr w \<Rightarrow> py_int w)
      ''tmpf_F_is_trace'' = Some (JBool False :: (int, unit) jval)"
  using normalize_malformed[of "'' 12x''"
      "\<lambda>a. case a of AInt i \<Rightarrow> Some i | AStr w \<Rightarrow> py_int w"
      "[''tmpf'' \<mapsto> Some '' 12x'']" "''tmpf''"
      "Map.empty :: string \<rightharpoonup> (int, unit) jval" "''tmpf_F''"]
  by (simp add: strip_def is_space_def py_int_def is_digit_def)

subsection \<open>The matcher: membership rules and captured groups\<close>

lemma plus_runs_caps: "(p', s', g') \<in> set (plus_runs P s g) \<Longrightarrow> g' = g"
  by (induction s) (auto split: if_splits)

lemma mem_Seq:
  "x \<in> set (rmatch (RSeq a b) st) \<longleftrightarrow> (\<exists>m \<in> set (rmatch a st). x \<in> set (rmatch b m))"
  by auto

lemma mem_Opt: "x \<in> set (rmatch (ROpt a) st) \<longleftrightarrow> x \<in> set (rmatch a st) \<or> x = st"
  by auto

lemma mem_Alt: "x \<in> set (rmatch (RAlt a b) st) \<longleftrightarrow> x \<in> set (rmatch a st) \<or> x \<in> set (rmatch b st)"
  by auto

lemma mem_Grp:
  "(p', s', g') \<in> set (rmatch (RGrp i a) (p, s, g)) \<longleftrightarrow>
     (\<exists>g''. (p', s', g'') \<in> set (rmatch a (p, s, g)) \<and>
            g' = g''(i \<mapsto> take (length s - length s') s))"
  by force

lemma mem_cls:
  "(p', s', g') \<in> set (rmatch (RCls P) (p, s, g)) \<longleftrightarrow>
     (\<exists>x. s = x # s' \<and> P x \<and> p' = Some x \<and> g' = g)"
  by (auto split: list.splits)

lemma mem_lit:
  "(p', s', g') \<in> set (rmatch (RLit c) (p, s, g)) \<longleftrightarrow> (s = c # s' \<and> p' = Some c \<and> g' = g)"
  by (auto split: list.splits)


lemma rmatch_grps:
  "(p', s', g') \<in> set (rmatch r (p, s, g)) \<Longrightarrow> i \<notin> grps r \<Longrightarrow> g' i = g i"
proof (induction r arbitrary: p s g p' s' g')
  case REps
  then show ?case by simp
next
  case (RLit c)
  then show ?case by (simp only: mem_lit)
next
  case (RCls P)
  then show ?case unfolding mem_cls by blast
next
  case (RPlus P)
  then show ?case using plus_runs_caps[of p' s' g' P s g] by simp
next
  case (RSeq a b)
  from RSeq.prems(1) obtain m where m: "m \<in> set (rmatch a (p, s, g))"
    and r: "(p', s', g') \<in> set (rmatch b m)"
    unfolding mem_Seq by blast
  obtain pm sm gm where e: "m = (pm, sm, gm)" by (cases m)
  from RSeq.prems(2) have ia: "i \<notin> grps a" and ib: "i \<notin> grps b" by simp_all
  have "gm i = g i" using RSeq.IH(1)[OF m[unfolded e] ia] .
  moreover have "g' i = gm i" using RSeq.IH(2)[OF r[unfolded e] ib] .
  ultimately show ?case by simp
next
  case (RAlt a b)
  from RAlt.prems(2) have ia: "i \<notin> grps a" and ib: "i \<notin> grps b" by simp_all
  from RAlt.prems(1) show ?case
    unfolding mem_Alt using RAlt.IH(1)[OF _ ia] RAlt.IH(2)[OF _ ib] by blast
next
  case (ROpt a)
  from ROpt.prems(2) have ia: "i \<notin> grps a" by simp
  from ROpt.prems(1) show ?case
    unfolding mem_Opt using ROpt.IH[OF _ ia] by blast
next
  case (RGrp j a)
  from RGrp.prems(2) have ia: "i \<notin> grps a" and ij: "i \<noteq> j" by simp_all
  from RGrp.prems(1) obtain g'' where m: "(p', s', g'') \<in> set (rmatch a (p, s, g))"
    and e: "g' = g''(j \<mapsto> take (length s - length s') s)"
    unfolding mem_Grp by blast
  from RGrp.IH[OF m ia] e ij show ?case by simp
next
  case RWordB
  then show ?case by (simp split: if_splits)
qed

lemma grps_rseq: "grps (rseq rs) = (\<Union>r \<in> set rs. grps r)"
  by (induction rs rule: rseq.induct) auto

lemma grps_lits: "grps (lits w) = {}"
  by (simp add: lits_def grps_rseq)

lemma grps_rep: "grps (rep n r) \<subseteq> grps r"
  by (induction n r rule: rep.induct) auto

lemma grps_rep_upto: "grps (rep_upto n r) \<subseteq> grps r"
  by (induction n r rule: rep_upto.induct) auto

lemma grps_digits: "grps (rep n digit) = {}" "grps (rep_range m n digit) = {}"
  using grps_rep[of n digit] grps_rep[of m digit] grps_rep_upto[of "n - m" digit]
  by (auto simp: rep_range_def)


lemma rep_unfold:
  "rep 2 r = RSeq r r" "rep 3 r = RSeq r (RSeq r r)" "rep 4 r = RSeq r (RSeq r (RSeq r r))"
  "rep_range 2 3 r = RSeq (RSeq r r) (ROpt r)" "rep_range 1 2 r = RSeq r (ROpt r)"
  by (simp_all add: eval_nat_numeral rep_range_def)

lemma mem_digits23:
  assumes "(p', s', g') \<in> set (rmatch (rep_range 2 3 digit) (p, s, g))"
  shows "g' = g \<and> digits_ne (take (length s - length s') s)"
proof -
  from assms obtain x y r where s: "s = x # y # r" and d: "is_digit x" "is_digit y"
    and m: "(p', s', g') \<in> set (rmatch (ROpt digit) (Some y, r, g))"
    unfolding rep_unfold by (auto simp: mem_Seq mem_cls simp del: rmatch.simps)
  from m consider "s' = r" "g' = g" | z where "r = z # s'" "is_digit z" "g' = g"
    unfolding mem_Opt mem_cls by auto
  then show ?thesis
    using s d by cases (simp_all add: digits_ne_def)
qed

lemma mem_grp_digits23:
  assumes "(p', s', g') \<in> set (rmatch (RGrp i (rep_range 2 3 digit)) (p, s, g))"
  shows "\<exists>w. g' = g(i \<mapsto> w) \<and> digits_ne w"
  using assms mem_digits23 unfolding mem_Grp by blast

declare rmatch.simps [simp del]

subsection \<open>The wind pattern captures digits, so the text parser never raises\<close>

lemma wind_groups:
  assumes "(p', s', g') \<in> set (rmatch (RGrp 0 wind_re) (p, s, Map.empty))"
  shows "(\<exists>w. g' 2 = Some w \<and> digits_ne w) \<and> (g' 4 = None \<or> (\<exists>w. g' 4 = Some w \<and> digits_ne w))"
proof -
  define G1 where "G1 = RGrp 1 (RAlt (rep 3 digit) (lits ''VRB''))"
  define G2 where "G2 = RGrp 2 (rep_range 2 3 digit)"
  define G4 where "G4 = RGrp 4 (rep_range 2 3 digit)"
  define O3 where "O3 = ROpt (RGrp 3 (RSeq (RLit CHR ''G'') G4))"
  have w: "wind_re = RSeq G1 (RSeq G2 (RSeq O3 (lits ''KT'')))"
    by (simp add: wind_re_def G1_def G2_def G4_def O3_def)
  have gr1: "4 \<notin> grps G1"
    by (simp add: G1_def grps_digits grps_lits)
  have gr3: "2 \<notin> grps O3"
    by (simp add: O3_def G4_def grps_digits)
  from assms obtain g0 where a0: "(p', s', g0) \<in> set (rmatch wind_re (p, s, Map.empty))"
    and g': "g' = g0(0 \<mapsto> take (length s - length s') s)"
    unfolding mem_Grp by blast
  from a0 obtain m1 m2 m3 where
    m1: "m1 \<in> set (rmatch G1 (p, s, Map.empty))" and
    m2: "m2 \<in> set (rmatch G2 m1)" and
    m3: "m3 \<in> set (rmatch O3 m2)" and
    m4: "(p', s', g0) \<in> set (rmatch (lits ''KT'') m3)"
    unfolding w mem_Seq by blast
  obtain p1 s1 g1 where e1: "m1 = (p1, s1, g1)" by (cases m1)
  obtain p2 s2 g2 where e2: "m2 = (p2, s2, g2)" by (cases m2)
  obtain p3 s3 g3 where e3: "m3 = (p3, s3, g3)" by (cases m3)
  have g14: "g1 4 = None"
    using rmatch_grps[OF m1[unfolded e1] gr1] by simp
  from mem_grp_digits23[OF m2[unfolded e1 e2 G2_def]]
  obtain w2 where g2: "g2 = g1(2 \<mapsto> w2)" "digits_ne w2" by blast
  have g32: "g3 2 = g2 2"
    using rmatch_grps[OF m3[unfolded e2 e3] gr3] .
  have g34: "g3 4 = None \<or> (\<exists>w. g3 4 = Some w \<and> digits_ne w)"
  proof (cases "m3 = m2")
    case True
    then show ?thesis using e2 e3 g2 g14 by simp
  next
    case False
    with m3[unfolded O3_def mem_Opt] e2 e3
    have "(p3, s3, g3) \<in> set (rmatch (RGrp 3 (RSeq (RLit CHR ''G'') G4)) (p2, s2, g2))"
      by blast
    then obtain gi where "(p3, s3, gi) \<in> set (rmatch (RSeq (RLit CHR ''G'') G4) (p2, s2, g2))"
      and gi: "g3 = gi(3 \<mapsto> take (length s2 - length s3) s2)"
      unfolding mem_Grp by blast
    then obtain mi where "(p3, s3, gi) \<in> set (rmatch G4 mi)"
      unfolding mem_Seq by blast
    then obtain gj w4 where "gi = gj(4 \<mapsto> w4)" "digits_ne w4"
      using mem_grp_digits23[of p3 s3 gi 4] unfolding G4_def by (cases mi) blast
    with gi show ?thesis by simp
  qed
  have "0 \<notin> grps (lits ''KT'')" "2 \<notin> grps (lits ''KT'')" "4 \<notin> grps (lits ''KT'')"
    by (simp_all add: grps_lits)
  then have g0: "g0 2 = g3 2" "g0 4 = g3 4"
    using rmatch_grps[OF m4[unfolded e3]] by blast+
  show ?thesis
    using g' g0 g32 g34 g2 by simp
qed

lemma match_at_mem:
  "m \<in> set (match_at r adv p s) \<Longrightarrow> m \<in> set (rmatch (RGrp 0 r) (p, s, Map.empty))"
  by (auto simp: match_at_def Let_def split: if_splits)

lemma search_from_mem:
  "search_from r adv p s = Some (start, m) \<Longrightarrow>
     \<exists>q. m \<in> set (rmatch (RGrp 0 r) (q, start, Map.empty))"
proof (induction r adv p s rule: search_from.induct)
  case (1 r adv p)
  then obtain ms where "match_at r adv p [] = m # ms" "start = []"
    by (auto split: list.splits)
  then show ?case using match_at_mem[of m r adv p "[]"] by auto
next
  case (2 r adv p x xs)
  show ?case
  proof (cases "match_at r adv p (x # xs)")
    case Nil
    with 2 show ?thesis by simp
  next
    case (Cons m' ms)
    with 2 have "m' = m" "start = x # xs" by auto
    with Cons show ?thesis using match_at_mem[of m r adv p "x # xs"] by auto
  qed
qed

lemma search_mem:
  assumes "search r s = Some g"
  shows "\<exists>q start p' s'. (p', s', g) \<in> set (rmatch (RGrp 0 r) (q, start, Map.empty))"
proof -
  from assms obtain start p' s' where "search_from r False None s = Some (start, p', s', g)"
    by (auto simp: search_def)
  from search_from_mem[OF this] show ?thesis by blast
qed

lemma py_int_digits: "digits_ne w \<Longrightarrow> \<exists>n. py_int w = Some n"
  by (simp add: py_int_def digits_ne_def)

lemma wind_step_total: "\<exists>out'. wind_step s out = Some out'"
proof (cases "search wind_re s")
  case None
  then show ?thesis by (simp add: wind_step_def)
next
  case (Some m)
  from search_mem[OF Some] wind_groups obtain w where w: "m 2 = Some w" "digits_ne w"
    and g: "m 4 = None \<or> (\<exists>w. m 4 = Some w \<and> digits_ne w)"
    by blast
  from py_int_digits[OF w(2)] obtain n where n: "py_int w = Some n" by blast
  from g show ?thesis
  proof
    assume "m 4 = None"
    then show ?thesis using Some w n by (simp add: wind_step_def truthy_def)
  next
    assume "\<exists>w. m 4 = Some w \<and> digits_ne w"
    then obtain w4 where w4: "m 4 = Some w4" "digits_ne w4" by blast
    from py_int_digits[OF w4(2)] obtain n4 where "py_int w4 = Some n4" by blast
    then show ?thesis using Some w n w4 by (simp add: wind_step_def truthy_def digits_ne_def)
  qed
qed

lemma parse_metar_text_total: "\<exists>d. parse_metar_text metar = Some d"
proof (cases metar)
  case None
  then show ?thesis by (simp add: parse_metar_text_def truthy_def)
next
  case (Some t)
  obtain out where "wind_step (strip t) Map.empty = Some out"
    using wind_step_total by blast
  then show ?thesis using Some by (simp add: parse_metar_text_def Let_def)
qed

lemma parse_metar_text_None: "parse_metar_text None = Some Map.empty"
  by (simp add: parse_metar_text_def truthy_def)

subsection \<open>The loops of the record assembler\<close>

lemma append_last_ne:
  assumes "last u \<noteq> last v" and "u \<noteq> []" and "v \<noteq> []"
  shows "a @ u \<noteq> b @ v"
proof
  assume "a @ u = b @ v"
  then have "last (a @ u) = last (b @ v)" by (rule arg_cong)
  with assms show False by simp
qed

lemma key_suffix_ne:
  "a @ ''_raw'' \<noteq> b @ ''_v''" "a @ ''_raw'' \<noteq> b @ ''_is_trace''"
  "a @ ''_v'' \<noteq> b @ ''_raw''" "a @ ''_v'' \<noteq> b @ ''_is_trace''"
  "a @ ''_is_trace'' \<noteq> b @ ''_raw''" "a @ ''_is_trace'' \<noteq> b @ ''_v''"
  by (rule append_last_ne; simp)+

lemma passthrough_apply:
  "passthrough row rec a k =
     (if rec a = None \<and> k = a @ ''_raw'' then Some (opt_str (dict_get row a)) else rec k)"
  by (simp add: passthrough_def)

lemma passthrough_fold_keeps:
  "rec k \<noteq> None \<Longrightarrow> foldl (passthrough row) rec ks k \<noteq> None"
  by (induction ks arbitrary: rec) (simp_all add: passthrough_apply)

lemma passthrough_fold_other:
  "\<forall>a \<in> set ks. k \<noteq> a @ ''_raw'' \<Longrightarrow> foldl (passthrough row) rec ks k = rec k"
  by (induction ks arbitrary: rec) (simp_all add: passthrough_apply)

lemma passthrough_fold_present:
  "rec k \<noteq> None \<Longrightarrow> foldl (passthrough row) rec ks (k @ ''_raw'') = rec (k @ ''_raw'')"
proof (induction ks arbitrary: rec)
  case Nil
  then show ?case by simp
next
  case (Cons a ks)
  have 1: "passthrough row rec a k \<noteq> None"
    using Cons.prems by (simp add: passthrough_apply)
  have 2: "passthrough row rec a (k @ ''_raw'') = rec (k @ ''_raw'')"
    using Cons.prems by (auto simp: passthrough_apply)
  show ?case using Cons.IH[of "passthrough row rec a"] 1 2 by simp
qed

lemma passthrough_fold_raw_stays:
  "rec (k @ ''_raw'') = Some (opt_str (dict_get row k)) \<Longrightarrow>
     foldl (passthrough row) rec ks (k @ ''_raw'') = Some (opt_str (dict_get row k))"
proof (induction ks arbitrary: rec)
  case Nil
  then show ?case by simp
next
  case (Cons a ks)
  have "passthrough row rec a (k @ ''_raw'') = Some (opt_str (dict_get row k))"
    using Cons.prems by (auto simp: passthrough_apply)
  then show ?case using Cons.IH[of "passthrough row rec a"] by simp
qed

lemma passthrough_fold_covers:
  "k \<in> set ks \<Longrightarrow>
     foldl (passthrough row) rec ks k \<noteq> None \<or>
     foldl (passthrough row) rec ks (k @ ''_raw'') = Some (opt_str (dict_get row k))"
proof (induction ks arbitrary: rec)
  case Nil
  then show ?case by simp
next
  case (Cons a ks)
  show ?case
  proof (cases "a = k")
    case True
    show ?thesis
    proof (cases "rec k = None")
      case True
      with \<open>a = k\<close> have "passthrough row rec a (k @ ''_raw'') = Some (opt_str (dict_get row k))"
        by (simp add: passthrough_apply)
      then show ?thesis
        using passthrough_fold_raw_stays[of "passthrough row rec a" k row ks] by simp
    next
      case False
      then have "passthrough row rec a k \<noteq> None" by (simp add: passthrough_apply)
      then show ?thesis
        using passthrough_fold_keeps[of "passthrough row rec a" k row ks] by simp
    qed
  next
    case False
    with Cons.prems have "k \<in> set ks" by simp
    then show ?thesis using Cons.IH[of "passthrough row rec a"] by simp
  qed
qed

lemma numeric_field_apply:
  "numeric_field row rec (c, out, f) k =
     (if row c \<noteq> None \<and> k = out @ ''_is_trace''
        then Some (JBool (snd (parse_numeric_field (dict_get row c) f)))
      else if row c \<noteq> None \<and> k = out @ ''_v''
        then Some (of_pyval (fst (parse_numeric_field (dict_get row c) f)))
      else if row c \<noteq> None \<and> k = out @ ''_raw''
        then Some (opt_str (dict_get row c))
      else rec k)"
  by (auto simp: numeric_field_def split: prod.splits)

lemma numeric_fold_untouched:
  "(\<And>c out f. (c, out, f) \<in> set specs \<Longrightarrow> row c \<noteq> None \<Longrightarrow>
       k \<noteq> out @ ''_raw'' \<and> k \<noteq> out @ ''_v'' \<and> k \<noteq> out @ ''_is_trace'') \<Longrightarrow>
   foldl (numeric_field row) rec specs k = rec k"
proof (induction specs arbitrary: rec)
  case Nil
  then show ?case by simp
next
  case (Cons x xs)
  obtain c out f where x: "x = (c, out, f)" by (cases x)
  have 1: "numeric_field row rec x k = rec k"
    using Cons.prems[of c out f] x by (auto simp: numeric_field_apply)
  have "foldl (numeric_field row) (numeric_field row rec x) xs k = numeric_field row rec x k"
    by (rule Cons.IH) (use Cons.prems in auto)
  with 1 show ?case by simp
qed

lemma numeric_fold_raw:
  assumes "distinct (map (\<lambda>x. fst (snd x)) specs)" and "(c, out, f) \<in> set specs" and "row c \<noteq> None"
  shows "foldl (numeric_field row) rec specs (out @ ''_raw'') = Some (opt_str (dict_get row c))"
  using assms
proof (induction specs arbitrary: rec)
  case Nil
  then show ?case by simp
next
  case (Cons x xs)
  show ?case
  proof (cases "x = (c, out, f)")
    case True
    have 1: "numeric_field row rec x (out @ ''_raw'') = Some (opt_str (dict_get row c))"
      using True Cons.prems(3) by (simp add: numeric_field_apply key_suffix_ne)
    have nin: "out \<notin> (\<lambda>x. fst (snd x)) ` set xs"
      using Cons.prems(1) True by simp
    have "foldl (numeric_field row) (numeric_field row rec x) xs (out @ ''_raw'')
            = numeric_field row rec x (out @ ''_raw'')"
    proof (rule numeric_fold_untouched)
      fix c' out' f'
      assume "(c', out', f') \<in> set xs"
      then have "out' \<noteq> out" using nin by force
      then show "out @ ''_raw'' \<noteq> out' @ ''_raw'' \<and> out @ ''_raw'' \<noteq> out' @ ''_v'' \<and>
                 out @ ''_raw'' \<noteq> out' @ ''_is_trace''"
        by (simp add: key_suffix_ne)
    qed
    with 1 show ?thesis by simp
  next
    case False
    with Cons.prems have "(c, out, f) \<in> set xs" "distinct (map (\<lambda>x. fst (snd x)) xs)" by auto
    then show ?thesis
      using Cons.IH[of "numeric_field row rec x"] Cons.prems(3) by simp
  qed
qed

lemma not_raw_key: "last k \<noteq> CHR ''w'' \<Longrightarrow> k \<noteq> [] \<Longrightarrow> k \<noteq> a @ ''_raw''"
  using append_last_ne[of k "''_raw''" "[]" a] by simp

lemma record_fields_apply:
  "record_fields float to_datetime row parsed k =
     (if k = ''metar_parsed'' then Some (JDict parsed)
      else if k = ''metar_raw'' then Some (opt_str (dict_get row ''metar''))
      else if k = ''wxcodes_tokens'' \<and> truthy (dict_get row ''wxcodes'')
                \<and> \<not> is_missing (dict_get row ''wxcodes'')
        then (case dict_get row ''wxcodes'' of
                None \<Rightarrow> None
              | Some w \<Rightarrow> Some (JList (map (\<lambda>m. group_str m 0) (findall token_re w))))
      else if k = ''wxcodes_raw'' then Some (opt_str (dict_get row ''wxcodes''))
      else if k = ''cloud_groups_raw'' \<and> cloud_groups row \<noteq> []
        then Some (JGroups (cloud_groups row))
      else foldl (numeric_field row) (base_fields to_datetime row) (numeric_specs float) k)"
  by (simp add: record_fields_def base_fields_def Let_def truthy_def split: option.splits)

lemma numeric_specs_distinct: "distinct (map (\<lambda>x. fst (snd x)) (numeric_specs float))"
  by (simp add: numeric_specs_def)

lemma numeric_specs_mem:
  "(c, out, f) \<in> set (numeric_specs float) \<Longrightarrow>
     f = float \<and>
     (c, out) \<in> {(''tmpf'', ''tmpf_F''), (''dwpf'', ''dwpf_F''), (''relh'', ''relh_pct''),
       (''drct'', ''wind_dir_deg''), (''sknt'', ''wind_spd_kt''), (''p01i'', ''precip_1hr_in''),
       (''alti'', ''altim_inHg''), (''mslp'', ''mslp_hPa''), (''vsby'', ''visibility_sm''),
       (''gust'', ''gust_kt''), (''snowdepth'', ''snowdepth_in'')}"
  by (auto simp: numeric_specs_def)

lemma numeric_fold_other:
  assumes "\<And>out. out \<in> (\<lambda>x. fst (snd x)) ` set specs \<Longrightarrow>
             k \<noteq> out @ ''_raw'' \<and> k \<noteq> out @ ''_v'' \<and> k \<noteq> out @ ''_is_trace''"
  shows "foldl (numeric_field row) rec specs k = rec k"
proof (rule numeric_fold_untouched)
  fix c out f
  assume "(c, out, f) \<in> set specs"
  then have "out \<in> (\<lambda>x. fst (snd x)) ` set specs" by force
  from assms[OF this]
  show "k \<noteq> out @ ''_raw'' \<and> k \<noteq> out @ ''_v'' \<and> k \<noteq> out @ ''_is_trace''" .
qed

lemma outnames:
  "(\<lambda>x. fst (snd x)) ` set (numeric_specs float) =
     {''tmpf_F'', ''dwpf_F'', ''relh_pct'', ''wind_dir_deg'', ''wind_spd_kt'', ''precip_1hr_in'',
      ''altim_inHg'', ''mslp_hPa'', ''visibility_sm'', ''gust_kt'', ''snowdepth_in''}"
  by (simp add: numeric_specs_def)

lemma fields_station:
  "record_fields float to_datetime row parsed ''station'' = Some (opt_str (dict_get row ''station''))"
proof -
  have "foldl (numeric_field row) (base_fields to_datetime row) (numeric_specs float) ''station''
          = base_fields to_datetime row ''station''"
    by (rule numeric_fold_other) (auto simp: outnames)
  then show ?thesis by (simp add: record_fields_apply base_fields_def)
qed

lemma fields_valid_raw:
  "record_fields float to_datetime row parsed ''valid_raw'' = Some (opt_str (dict_get row ''valid''))"
proof -
  have "foldl (numeric_field row) (base_fields to_datetime row) (numeric_specs float) ''valid_raw''
          = base_fields to_datetime row ''valid_raw''"
    by (rule numeric_fold_other) (auto simp: outnames)
  then show ?thesis by (simp add: record_fields_apply base_fields_def)
qed

lemma fields_valid:
  "record_fields float to_datetime row parsed ''valid''
     = Some (parse_valid to_datetime (dict_get row ''valid''))"
proof -
  have "foldl (numeric_field row) (base_fields to_datetime row) (numeric_specs float) ''valid''
          = base_fields to_datetime row ''valid''"
    by (rule numeric_fold_other) (auto simp: outnames)
  then show ?thesis by (simp add: record_fields_apply base_fields_def)
qed

lemma fields_late:
  "record_fields float to_datetime row parsed ''wxcodes_raw'' = Some (opt_str (dict_get row ''wxcodes''))"
  "record_fields float to_datetime row parsed ''metar_raw'' = Some (opt_str (dict_get row ''metar''))"
  "record_fields float to_datetime row parsed ''metar_parsed'' = Some (JDict parsed)"
  by (simp_all add: record_fields_apply)

subsection \<open>The assembled record\<close>

lemma row_to_record_Some:
  "\<exists>parsed. parse_metar_text (dict_get row ''metar'') = Some parsed \<and>
     row_to_record float to_datetime row csv_fieldnames =
       Some (foldl (passthrough row) (record_fields float to_datetime row parsed) csv_fieldnames)"
proof -
  obtain parsed where "parse_metar_text (dict_get row ''metar'') = Some parsed"
    using parse_metar_text_total by blast
  then show ?thesis by (simp add: row_to_record_def)
qed

lemma final_fixed:
  fixes rf :: "string \<rightharpoonup> ('v, 't) jval"
  assumes "rf = record_fields float to_datetime row parsed"
  shows "foldl (passthrough row) rf ks ''station'' = Some (opt_str (dict_get row ''station''))"
    and "foldl (passthrough row) rf ks ''valid'' = Some (parse_valid to_datetime (dict_get row ''valid''))"
    and "foldl (passthrough row) rf ks ''metar_parsed'' = Some (JDict parsed)"
    and "foldl (passthrough row) rf ks ''valid_raw'' = Some (opt_str (dict_get row ''valid''))"
    and "foldl (passthrough row) rf ks ''wxcodes_raw'' = Some (opt_str (dict_get row ''wxcodes''))"
    and "foldl (passthrough row) rf ks ''metar_raw'' = Some (opt_str (dict_get row ''metar''))"
proof -
  have "foldl (passthrough row) rf ks ''station'' = rf ''station''"
    by (rule passthrough_fold_other) (simp add: not_raw_key)
  then show "foldl (passthrough row) rf ks ''station'' = Some (opt_str (dict_get row ''station''))"
    by (simp add: assms fields_station)
  have "foldl (passthrough row) rf ks ''valid'' = rf ''valid''"
    by (rule passthrough_fold_other) (simp add: not_raw_key)
  then show "foldl (passthrough row) rf ks ''valid'' = Some (parse_valid to_datetime (dict_get row ''valid''))"
    by (simp add: assms fields_valid)
  have "foldl (passthrough row) rf ks ''metar_parsed'' = rf ''metar_parsed''"
    by (rule passthrough_fold_other) (simp add: not_raw_key)
  then show "foldl (passthrough row) rf ks ''metar_parsed'' = Some (JDict parsed)"
    by (simp add: assms fields_late)
  have "rf ''valid'' \<noteq> None" by (simp add: assms fields_valid)
  with passthrough_fold_present[of rf "''valid''" row ks]
  show "foldl (passthrough row) rf ks ''valid_raw'' = Some (opt_str (dict_get row ''valid''))"
    by (simp add: assms fields_valid_raw)
  have "rf (''wxcodes'' @ ''_raw'') = Some (opt_str (dict_get row ''wxcodes''))"
    by (simp add: assms fields_late)
  with passthrough_fold_raw_stays[of rf "''wxcodes''" row ks]
  show "foldl (passthrough row) rf ks ''wxcodes_raw'' = Some (opt_str (dict_get row ''wxcodes''))"
    by simp
  have "rf (''metar'' @ ''_raw'') = Some (opt_str (dict_get row ''metar''))"
    by (simp add: assms fields_late)
  with passthrough_fold_raw_stays[of rf "''metar''" row ks]
  show "foldl (passthrough row) rf ks ''metar_raw'' = Some (opt_str (dict_get row ''metar''))"
    by simp
qed

lemma fields_not_key:
  assumes "k \<notin> {''station'', ''valid_raw'', ''valid'', ''cloud_groups_raw'', ''wxcodes_raw'',
                 ''wxcodes_tokens'', ''metar_raw'', ''metar_parsed''}"
    and "\<And>out. out \<in> (\<lambda>x. fst (snd x)) ` set (numeric_specs float) \<Longrightarrow>
           k \<noteq> out @ ''_raw'' \<and> k \<noteq> out @ ''_v'' \<and> k \<noteq> out @ ''_is_trace''"
  shows "record_fields float to_datetime row parsed k = None"
proof -
  have "foldl (numeric_field row) (base_fields to_datetime row) (numeric_specs float) k
          = base_fields to_datetime row k"
    using assms(2) by (rule numeric_fold_other)
  then show ?thesis using assms(1) by (simp add: record_fields_apply base_fields_def)
qed

lemma numeric_fold_absent:
  assumes mem: "(col, out, f) \<in> set specs"
    and dist: "distinct (map (\<lambda>x. fst (snd x)) specs)"
    and absent: "row col = None"
    and sfx: "sfx \<in> {''_raw'', ''_v'', ''_is_trace''}"
  shows "foldl (numeric_field row) rec specs (out @ sfx) = rec (out @ sfx)"
proof (rule numeric_fold_untouched)
  fix c' out' f'
  assume m': "(c', out', f') \<in> set specs" and p: "row c' \<noteq> None"
  have "out' \<noteq> out"
  proof
    assume "out' = out"
    then have e: "(\<lambda>x. fst (snd x)) (c', out', f') = (\<lambda>x. fst (snd x)) (col, out, f)" by simp
    from dist have "inj_on (\<lambda>x. fst (snd x)) (set specs)" by (simp add: distinct_map)
    from inj_onD[OF this e m' mem] have "c' = col" by simp
    with p absent show False by simp
  qed
  then show "out @ sfx \<noteq> out' @ ''_raw'' \<and> out @ sfx \<noteq> out' @ ''_v'' \<and>
             out @ sfx \<noteq> out' @ ''_is_trace''"
    using sfx key_suffix_ne[of out out'] key_suffix_ne[of out' out] by auto
qed


lemma numeric_key_not_fixed:
  assumes "out \<in> (\<lambda>x. fst (snd x)) ` set (numeric_specs float)"
    and "sfx \<in> {''_raw'', ''_v'', ''_is_trace''}"
  shows "out @ sfx \<notin> {''station'', ''valid_raw'', ''valid'', ''cloud_groups_raw'', ''wxcodes_raw'',
                 ''wxcodes_tokens'', ''metar_raw'', ''metar_parsed''}"
  using assms unfolding outnames by auto

lemma fields_absent:
  assumes mem: "(col, out, f) \<in> set (numeric_specs float)" and absent: "row col = None"
    and sfx: "sfx \<in> {''_raw'', ''_v'', ''_is_trace''}"
  shows "record_fields float to_datetime row parsed (out @ sfx) = None"
proof -
  have 1: "foldl (numeric_field row) (base_fields to_datetime row) (numeric_specs float) (out @ sfx)
          = base_fields to_datetime row (out @ sfx)"
    using mem numeric_specs_distinct absent sfx by (rule numeric_fold_absent)
  from mem have "out \<in> (\<lambda>x. fst (snd x)) ` set (numeric_specs float)" by force
  from numeric_key_not_fixed[OF this sfx]
  have nk: "out @ sfx \<noteq> ''station''" "out @ sfx \<noteq> ''valid_raw''" "out @ sfx \<noteq> ''valid''"
    "out @ sfx \<noteq> ''cloud_groups_raw''" "out @ sfx \<noteq> ''wxcodes_raw''"
    "out @ sfx \<noteq> ''wxcodes_tokens''" "out @ sfx \<noteq> ''metar_raw''" "out @ sfx \<noteq> ''metar_parsed''"
    by simp_all
  have 2: "base_fields to_datetime row (out @ sfx) = None"
    using nk(1-3) by (simp add: base_fields_def)
  show ?thesis
    unfolding record_fields_apply using nk(4-8) 1 2 by simp
qed

lemma field_row_to_record:
  "\<exists>parsed. parse_metar_text (dict_get row ''metar'') = Some parsed \<and>
     (\<forall>k. field (row_to_record float to_datetime row ks) k =
        foldl (passthrough row) (record_fields float to_datetime row parsed) ks k)"
  using row_to_record_Some[of row float to_datetime ks] by (auto simp: field_def)





text \<open>
  What the guard of the code does, for any parser: \<^verbatim>\<open>valid\<close> is null when the raw
  timestamp is null, the empty string or \<^verbatim>\<open>M\<close> once trimmed, and in every other case it
  is what \<^verbatim>\<open>pd.to_datetime\<close> makes of the untrimmed string, or null where that raises.
\<close>

lemma timestamp_guard:
  "\<exists>rec. row_to_record float to_datetime row csv_fieldnames = Some rec \<and>
     rec ''valid_raw'' = Some (opt_str (dict_get row ''valid'')) \<and>
     rec ''valid'' =
       Some (case dict_get row ''valid'' of
               None \<Rightarrow> JNone
             | Some t \<Rightarrow>
                 if t = [] \<or> strip t = ''M'' then JNone
                 else (case to_datetime t of None \<Rightarrow> JNone | Some d \<Rightarrow> JTime d))"
proof -
  obtain parsed where
    r: "row_to_record float to_datetime row csv_fieldnames =
          Some (foldl (passthrough row) (record_fields float to_datetime row parsed) csv_fieldnames)"
    using row_to_record_Some by blast
  have "parse_valid to_datetime (dict_get row ''valid'') =
          (case dict_get row ''valid'' of
               None \<Rightarrow> JNone
             | Some t \<Rightarrow>
                 if t = [] \<or> strip t = ''M'' then JNone
                 else (case to_datetime t of None \<Rightarrow> JNone | Some d \<Rightarrow> JTime d))"
    by (simp add: parse_valid_def split: option.splits)
  then show ?thesis
    unfolding r using final_fixed(2,4)[OF refl, of row float to_datetime parsed csv_fieldnames]
    by simp
qed




lemma numeric_col_facts:
  assumes "(col, out, f) \<in> set (numeric_specs float)"
  shows "col \<noteq> []" and "last col \<noteq> CHR ''w''" and "out \<noteq> col"
    and "col \<notin> {''station'', ''valid_raw'', ''valid'', ''cloud_groups_raw'', ''wxcodes_raw'',
                 ''wxcodes_tokens'', ''metar_raw'', ''metar_parsed''}"
  using numeric_specs_mem[OF assms] by auto

lemma numeric_col_not_key:
  assumes "(col, out, f) \<in> set (numeric_specs float)"
    and "out' \<in> (\<lambda>x. fst (snd x)) ` set (numeric_specs float)"
  shows "col \<noteq> out' @ ''_raw'' \<and> col \<noteq> out' @ ''_v'' \<and> col \<noteq> out' @ ''_is_trace''"
proof -
  have 1: "length col \<le> 9" using numeric_specs_mem[OF assms(1)] by auto
  have 2: "6 \<le> length out'" using assms(2) unfolding outnames by auto
  have "length (out' @ ''_raw'') \<ge> 10" "length (out' @ ''_is_trace'') \<ge> 10" using 2 by simp_all
  with 1 have a: "col \<noteq> out' @ ''_raw''" "col \<noteq> out' @ ''_is_trace''" by auto
  have "last col \<noteq> CHR ''v''" using numeric_specs_mem[OF assms(1)] by auto
  then have "col \<noteq> out' @ ''_v''" by auto
  with a show ?thesis by simp
qed


lemma final_numeric_absent:
  assumes mem: "(col, out, f) \<in> set (numeric_specs float)" and absent: "row col = None"
  shows "foldl (passthrough row) (record_fields float to_datetime row parsed) ks (out @ ''_v'') = None"
    and "foldl (passthrough row) (record_fields float to_datetime row parsed) ks (out @ ''_is_trace'') = None"
    and "out \<notin> set ks \<Longrightarrow>
         foldl (passthrough row) (record_fields float to_datetime row parsed) ks (out @ ''_raw'') = None"
proof -
  let ?rf = "record_fields float to_datetime row parsed"
  have "foldl (passthrough row) ?rf ks (out @ ''_v'') = ?rf (out @ ''_v'')"
    by (rule passthrough_fold_other) (simp add: key_suffix_ne)
  then show "foldl (passthrough row) ?rf ks (out @ ''_v'') = None"
    using fields_absent[of col out f float row "''_v''" to_datetime parsed] mem absent by simp
  have "foldl (passthrough row) ?rf ks (out @ ''_is_trace'') = ?rf (out @ ''_is_trace'')"
    by (rule passthrough_fold_other) (simp add: key_suffix_ne)
  then show "foldl (passthrough row) ?rf ks (out @ ''_is_trace'') = None"
    using fields_absent[of col out f float row "''_is_trace''" to_datetime parsed] mem absent by simp
  assume "out \<notin> set ks"
  then have "\<forall>a \<in> set ks. out @ ''_raw'' \<noteq> a @ ''_raw''" by auto
  then have "foldl (passthrough row) ?rf ks (out @ ''_raw'') = ?rf (out @ ''_raw'')"
    by (rule passthrough_fold_other)
  then show "foldl (passthrough row) ?rf ks (out @ ''_raw'') = None"
    using fields_absent[of col out f float row "''_raw''" to_datetime parsed] mem absent by simp
qed

text \<open>
  Claim C9.  For every row the function returns a record that has the keys
  \<^verbatim>\<open>station\<close>, \<^verbatim>\<open>valid_raw\<close>, \<^verbatim>\<open>valid\<close>, \<^verbatim>\<open>wxcodes_raw\<close>, \<^verbatim>\<open>metar_raw\<close> and
  \<^verbatim>\<open>metar_parsed\<close>; where the source column is absent from the row they hold null,
  and \<^verbatim>\<open>metar_parsed\<close> the empty mapping.  A numeric column absent from the row
  leaves the record as it is in the numeric loop: its \<^verbatim>\<open>_v\<close> and \<^verbatim>\<open>_is_trace\<close> keys
  are absent from the result, and so is its \<^verbatim>\<open>_raw\<close> key unless the column list
  names a column after the output name itself, which the final loop then copies.
\<close>

theorem fixed_keys_present:
  assumes "(col, out, f) \<in> set (numeric_specs float)"
  shows "row_to_record float to_datetime row csv_fieldnames \<noteq> None \<and>
     field (row_to_record float to_datetime row csv_fieldnames) ''station'' \<noteq> None \<and>
     field (row_to_record float to_datetime row csv_fieldnames) ''valid_raw'' \<noteq> None \<and>
     field (row_to_record float to_datetime row csv_fieldnames) ''valid'' \<noteq> None \<and>
     field (row_to_record float to_datetime row csv_fieldnames) ''wxcodes_raw'' \<noteq> None \<and>
     field (row_to_record float to_datetime row csv_fieldnames) ''metar_raw'' \<noteq> None \<and>
     field (row_to_record float to_datetime row csv_fieldnames) ''metar_parsed'' \<noteq> None \<and>
     (row ''station'' = None \<longrightarrow>
        field (row_to_record float to_datetime row csv_fieldnames) ''station'' = Some JNone) \<and>
     (row ''valid'' = None \<longrightarrow>
        field (row_to_record float to_datetime row csv_fieldnames) ''valid_raw'' = Some JNone \<and>
        field (row_to_record float to_datetime row csv_fieldnames) ''valid'' = Some JNone) \<and>
     (row ''wxcodes'' = None \<longrightarrow>
        field (row_to_record float to_datetime row csv_fieldnames) ''wxcodes_raw'' = Some JNone) \<and>
     (row ''metar'' = None \<longrightarrow>
        field (row_to_record float to_datetime row csv_fieldnames) ''metar_raw'' = Some JNone \<and>
        field (row_to_record float to_datetime row csv_fieldnames) ''metar_parsed'' = Some (JDict Map.empty)) \<and>
     (row col = None \<longrightarrow>
        numeric_field row r (col, out, f) = r \<and>
        field (row_to_record float to_datetime row csv_fieldnames) (out @ ''_v'') = None \<and>
        field (row_to_record float to_datetime row csv_fieldnames) (out @ ''_is_trace'') = None \<and>
        (out \<notin> set csv_fieldnames \<longrightarrow>
           field (row_to_record float to_datetime row csv_fieldnames) (out @ ''_raw'') = None))"
proof -
  obtain parsed where p: "parse_metar_text (dict_get row ''metar'') = Some parsed" and
    r: "row_to_record float to_datetime row csv_fieldnames =
          Some (foldl (passthrough row) (record_fields float to_datetime row parsed) csv_fieldnames)"
    using row_to_record_Some by blast
  let ?rec = "foldl (passthrough row) (record_fields float to_datetime row parsed) csv_fieldnames"
  have fld: "\<And>k. field (row_to_record float to_datetime row csv_fieldnames) k = ?rec k"
    by (simp add: r field_def)
  note ff = final_fixed[OF refl, of row float to_datetime parsed csv_fieldnames]
  have st: "row ''station'' = None \<longrightarrow> ?rec ''station'' = Some JNone"
    using ff(1) by (simp add: dict_get_def opt_str_def)
  have va: "row ''valid'' = None \<longrightarrow> ?rec ''valid_raw'' = Some JNone \<and> ?rec ''valid'' = Some JNone"
    using ff(2,4) by (simp add: dict_get_def opt_str_def parse_valid_def)
  have wx: "row ''wxcodes'' = None \<longrightarrow> ?rec ''wxcodes_raw'' = Some JNone"
    using ff(5) by (simp add: dict_get_def opt_str_def)
  have me: "row ''metar'' = None \<longrightarrow>
        ?rec ''metar_raw'' = Some JNone \<and> ?rec ''metar_parsed'' = Some (JDict Map.empty)"
  proof
    assume a: "row ''metar'' = None"
    then have "dict_get row ''metar'' = None" by (simp add: dict_get_def)
    with p have "parsed = Map.empty" by (simp add: parse_metar_text_None)
    with a show "?rec ''metar_raw'' = Some JNone \<and> ?rec ''metar_parsed'' = Some (JDict Map.empty)"
      using ff(3,6) by (simp add: dict_get_def opt_str_def)
  qed
  have nu: "row col = None \<longrightarrow>
        numeric_field row r (col, out, f) = r \<and>
        ?rec (out @ ''_v'') = None \<and> ?rec (out @ ''_is_trace'') = None \<and>
        (out \<notin> set csv_fieldnames \<longrightarrow> ?rec (out @ ''_raw'') = None)"
    using final_numeric_absent[where ks=csv_fieldnames and parsed=parsed
        and to_datetime=to_datetime and row=row and col=col and out=out and f=f and float=float] assms
    by (simp add: numeric_field_def)
  show ?thesis
    unfolding fld
    apply (intro conjI)
                apply (simp add: r)
               apply (simp add: ff(1))
              apply (simp add: ff(4))
             apply (simp add: ff(2))
            apply (simp add: ff(5))
           apply (simp add: ff(6))
          apply (simp add: ff(3))
         apply (fact st)
        apply (fact va)
       apply (fact wx)
      apply (fact me)
     apply (fact nu)
    done
qed


theorem fixed_keys_present_witness:
  "(''tmpf'', ''tmpf_F'', \<lambda>a. None :: int option) \<in> set (numeric_specs (\<lambda>a. None :: int option)) \<and>
   row_to_record (\<lambda>a. None :: int option) (\<lambda>s. None :: unit option) Map.empty [] \<noteq> None \<and>
   field (row_to_record (\<lambda>a. None :: int option) (\<lambda>s. None :: unit option) Map.empty []) ''station''
     = Some JNone \<and>
   field (row_to_record (\<lambda>a. None :: int option) (\<lambda>s. None :: unit option) Map.empty []) ''valid_raw''
     = Some JNone \<and>
   field (row_to_record (\<lambda>a. None :: int option) (\<lambda>s. None :: unit option) Map.empty []) ''valid''
     = Some JNone \<and>
   field (row_to_record (\<lambda>a. None :: int option) (\<lambda>s. None :: unit option) Map.empty []) ''wxcodes_raw''
     = Some JNone \<and>
   field (row_to_record (\<lambda>a. None :: int option) (\<lambda>s. None :: unit option) Map.empty []) ''metar_raw''
     = Some JNone \<and>
   field (row_to_record (\<lambda>a. None :: int option) (\<lambda>s. None :: unit option) Map.empty []) ''metar_parsed''
     = Some (JDict Map.empty) \<and>
   field (row_to_record (\<lambda>a. None :: int option) (\<lambda>s. None :: unit option) Map.empty []) ''tmpf_F_raw''
     = None \<and>
   field (row_to_record (\<lambda>a. None :: int option) (\<lambda>s. None :: unit option) Map.empty []) ''tmpf_F_v''
     = None \<and>
   field (row_to_record (\<lambda>a. None :: int option) (\<lambda>s. None :: unit option) Map.empty []) ''tmpf_F_is_trace''
     = None"
  using fixed_keys_present[where col="''tmpf''" and out="''tmpf_F''" and f="\<lambda>a. None :: int option"
      and float="\<lambda>a. None :: int option" and to_datetime="\<lambda>s. None :: unit option"
      and row=Map.empty and csv_fieldnames="[]" and r="Map.empty :: string \<rightharpoonup> (int, unit) jval"]
  by (simp add: numeric_specs_def)

lemma fields_numeric_raw:
  assumes mem: "(col, out, f) \<in> set (numeric_specs float)" and present: "row col \<noteq> None"
  shows "record_fields float to_datetime row parsed (out @ ''_raw'') = Some (opt_str (dict_get row col))"
proof -
  have 1: "foldl (numeric_field row) (base_fields to_datetime row) (numeric_specs float) (out @ ''_raw'')
          = Some (opt_str (dict_get row col))"
    using numeric_specs_distinct mem present by (rule numeric_fold_raw)
  from mem have "out \<in> (\<lambda>x. fst (snd x)) ` set (numeric_specs float)" by force
  from numeric_key_not_fixed[OF this, of "''_raw''"]
  have nk: "out @ ''_raw'' \<noteq> ''cloud_groups_raw''" "out @ ''_raw'' \<noteq> ''wxcodes_raw''"
    "out @ ''_raw'' \<noteq> ''wxcodes_tokens''" "out @ ''_raw'' \<noteq> ''metar_raw''"
    "out @ ''_raw'' \<noteq> ''metar_parsed''"
    by simp_all
  show ?thesis
    unfolding record_fields_apply using nk 1 by simp
qed

lemma fields_numeric_col:
  assumes mem: "(col, out, f) \<in> set (numeric_specs float)"
  shows "record_fields float to_datetime row parsed col = None"
  using numeric_col_facts(4)[OF mem] numeric_col_not_key[OF mem]
  by (rule fields_not_key)

text \<open>
  Claim C10, as amended.  For a numeric column that the row holds and the column
  list names, and whose output name is not itself a name of the column list, the
  record holds the raw value under \<^verbatim>\<open><outputName>_raw\<close> and under \<^verbatim>\<open><column>_raw\<close>,
  two different keys with the same value.
\<close>

theorem raw_value_stored_twice:
  assumes mem: "(col, out, f) \<in> set (numeric_specs float)" and present: "row col \<noteq> None"
    and listed: "col \<in> set csv_fieldnames" and nocoll: "out \<notin> set csv_fieldnames"
  shows "field (row_to_record float to_datetime row csv_fieldnames) (out @ ''_raw'')
           = Some (opt_str (dict_get row col)) \<and>
         field (row_to_record float to_datetime row csv_fieldnames) (col @ ''_raw'')
           = Some (opt_str (dict_get row col)) \<and>
         out @ ''_raw'' \<noteq> col @ ''_raw''"
proof -
  obtain parsed where fld: "\<And>k. field (row_to_record float to_datetime row csv_fieldnames) k =
      foldl (passthrough row) (record_fields float to_datetime row parsed) csv_fieldnames k"
    using field_row_to_record by blast
  let ?rf = "record_fields float to_datetime row parsed"
  from nocoll have "\<forall>a \<in> set csv_fieldnames. out @ ''_raw'' \<noteq> a @ ''_raw''" by auto
  then have "foldl (passthrough row) ?rf csv_fieldnames (out @ ''_raw'') = ?rf (out @ ''_raw'')"
    by (rule passthrough_fold_other)
  then have a: "field (row_to_record float to_datetime row csv_fieldnames) (out @ ''_raw'')
           = Some (opt_str (dict_get row col))"
    unfolding fld using fields_numeric_raw[of col out f float row to_datetime parsed] mem present
    by simp
  have "\<forall>a \<in> set csv_fieldnames. col \<noteq> a @ ''_raw''"
    using numeric_col_facts(1,2)[OF mem] by (simp add: not_raw_key)
  then have "foldl (passthrough row) ?rf csv_fieldnames col = ?rf col"
    by (rule passthrough_fold_other)
  then have "foldl (passthrough row) ?rf csv_fieldnames col = None"
    using fields_numeric_col[of col out f float to_datetime row parsed] mem by simp
  with passthrough_fold_covers[of col csv_fieldnames row ?rf] listed
  have b: "field (row_to_record float to_datetime row csv_fieldnames) (col @ ''_raw'')
           = Some (opt_str (dict_get row col))"
    unfolding fld by simp
  have c: "out @ ''_raw'' \<noteq> col @ ''_raw''"
    using numeric_col_facts(3)[OF mem] by simp
  from a b c show ?thesis by simp
qed


theorem raw_value_stored_twice_witness:
  "(''tmpf'', ''tmpf_F'', \<lambda>a. None :: int option) \<in> set (numeric_specs (\<lambda>a. None :: int option)) \<and>
   [''station'' \<mapsto> Some ''KSEA'', ''tmpf'' \<mapsto> Some ''70''] ''tmpf'' \<noteq> None \<and>
   ''tmpf'' \<in> set [''station'', ''tmpf''] \<and> ''tmpf_F'' \<notin> set [''station'', ''tmpf''] \<and>
   field (row_to_record (\<lambda>a. None :: int option) (\<lambda>s. None :: unit option)
            [''station'' \<mapsto> Some ''KSEA'', ''tmpf'' \<mapsto> Some ''70''] [''station'', ''tmpf''])
      ''tmpf_F_raw'' = Some (JStr ''70'') \<and>
   field (row_to_record (\<lambda>a. None :: int option) (\<lambda>s. None :: unit option)
            [''station'' \<mapsto> Some ''KSEA'', ''tmpf'' \<mapsto> Some ''70''] [''station'', ''tmpf''])
      ''tmpf_raw'' = Some (JStr ''70'')"
  using raw_value_stored_twice[where col="''tmpf''" and out="''tmpf_F''"
      and f="\<lambda>a. None :: int option" and float="\<lambda>a. None :: int option"
      and to_datetime="\<lambda>s. None :: unit option"
      and row="[''station'' \<mapsto> Some ''KSEA'', ''tmpf'' \<mapsto> Some ''70'']"
      and csv_fieldnames="[''station'', ''tmpf'']"]
  by (simp add: numeric_specs_def dict_get_def opt_str_def)

text \<open>
  Claim C10 as stated fails where the table has a column named after an output
  name: with the columns \<^verbatim>\<open>tmpf\<close> and \<^verbatim>\<open>tmpf_F\<close>, the final loop overwrites
  \<^verbatim>\<open>tmpf_F_raw\<close> with the value of the column \<^verbatim>\<open>tmpf_F\<close>, and the two values differ.
\<close>

theorem raw_value_collision_counterexample:
  "(''tmpf'', ''tmpf_F'', \<lambda>a. None :: int option) \<in> set (numeric_specs (\<lambda>a. None :: int option)) \<and>
   [''tmpf'' \<mapsto> Some ''70'', ''tmpf_F'' \<mapsto> Some ''x''] ''tmpf'' \<noteq> None \<and>
   ''tmpf'' \<in> set [''tmpf'', ''tmpf_F''] \<and>
   field (row_to_record (\<lambda>a. None :: int option) (\<lambda>s. None :: unit option)
            [''tmpf'' \<mapsto> Some ''70'', ''tmpf_F'' \<mapsto> Some ''x''] [''tmpf'', ''tmpf_F''])
      ''tmpf_F_raw'' = Some (JStr ''x'') \<and>
   field (row_to_record (\<lambda>a. None :: int option) (\<lambda>s. None :: unit option)
            [''tmpf'' \<mapsto> Some ''70'', ''tmpf_F'' \<mapsto> Some ''x''] [''tmpf'', ''tmpf_F''])
      ''tmpf_raw'' = Some (JStr ''70'')"
proof -
  let ?row = "[''tmpf'' \<mapsto> Some ''70'', ''tmpf_F'' \<mapsto> Some ''x'']"
  let ?f = "\<lambda>a. None :: int option"
  let ?td = "\<lambda>s. None :: unit option"
  have m: "(''tmpf'', ''tmpf_F'', ?f) \<in> set (numeric_specs ?f)"
    by (simp add: numeric_specs_def)
  obtain parsed where fld: "\<And>k. field (row_to_record ?f ?td ?row [''tmpf'', ''tmpf_F'']) k =
      foldl (passthrough ?row) (record_fields ?f ?td ?row parsed) [''tmpf'', ''tmpf_F''] k"
    using field_row_to_record by blast
  have 1: "record_fields ?f ?td ?row parsed ''tmpf'' = None"
    using m by (rule fields_numeric_col)
  have 2: "record_fields ?f ?td ?row parsed ''tmpf_F'' = None"
    by (rule fields_not_key) (auto simp: outnames)
  show ?thesis
    unfolding fld using m 1 2 by (simp add: passthrough_apply dict_get_def opt_str_def)
qed

subsection \<open>Scanning for a match\<close>

lemma prev_char_Cons: "prev_char (Some a) u = prev_char p (a # u)"
  by (simp add: prev_char_def)

lemma search_from_found:
  "match_at r False (prev_char p u) v \<noteq> [] \<Longrightarrow> \<exists>res. search_from r False p (u @ v) = Some res"
proof (induction u arbitrary: p)
  case Nil
  then show ?case by (cases v) (auto simp: prev_char_def split: list.splits)
next
  case (Cons a u)
  from Cons.prems have "match_at r False (prev_char (Some a) u) v \<noteq> []"
    by (simp add: prev_char_Cons[of a u p])
  from Cons.IH[OF this] show ?case by (auto split: list.splits)
qed

lemma search_from_start:
  "search_from r False p s = Some (start, m) \<Longrightarrow>
     \<exists>u ms. s = u @ start \<and> match_at r False (prev_char p u) start = m # ms \<and>
       (\<forall>u1 u2. u = u1 @ u2 \<and> u2 \<noteq> [] \<longrightarrow> match_at r False (prev_char p u1) (u2 @ start) = [])"
proof (induction s arbitrary: p)
  case Nil
  then obtain ms where "match_at r False p [] = m # ms" "start = []"
    by (auto split: list.splits)
  then show ?case by (auto simp: prev_char_def)
next
  case (Cons x xs)
  show ?case
  proof (cases "match_at r False p (x # xs)")
    case (Cons m' ms)
    with Cons.prems have "start = x # xs" "m' = m" by auto
    with Cons show ?thesis by (auto simp: prev_char_def)
  next
    case Nil
    with Cons.prems have "search_from r False (Some x) xs = Some (start, m)" by simp
    from Cons.IH[OF this] obtain u ms where u: "xs = u @ start"
      and m: "match_at r False (prev_char (Some x) u) start = m # ms"
      and mn: "\<forall>u1 u2. u = u1 @ u2 \<and> u2 \<noteq> [] \<longrightarrow>
                 match_at r False (prev_char (Some x) u1) (u2 @ start) = []"
      by blast
    have "\<forall>u1 u2. x # u = u1 @ u2 \<and> u2 \<noteq> [] \<longrightarrow>
            match_at r False (prev_char p u1) (u2 @ start) = []"
    proof (intro allI impI)
      fix u1 u2 assume a: "x # u = u1 @ u2 \<and> u2 \<noteq> []"
      show "match_at r False (prev_char p u1) (u2 @ start) = []"
      proof (cases u1)
        case Nil
        with a u have "u2 @ start = x # xs" by simp
        with Nil \<open>match_at r False p (x # xs) = []\<close> show ?thesis by (simp add: prev_char_def)
      next
        case (Cons y u1')
        with a have "y = x" "u = u1' @ u2" by simp_all
        with mn a have "match_at r False (prev_char (Some x) u1') (u2 @ start) = []" by blast
        with Cons \<open>y = x\<close> show ?thesis by (simp add: prev_char_Cons[of x u1' p])
      qed
    qed
    with u m show ?thesis
      by (intro exI[of _ "x # u"] exI[of _ ms]) (simp add: prev_char_Cons[of x u p])
  qed
qed

lemma wind_step_other:
  "wind_step s out = Some out' \<Longrightarrow> k \<notin> {''wind_dir'', ''wind_spd_kt'', ''wind_gust_kt''} \<Longrightarrow>
     out' k = out k"
  by (auto simp: wind_step_def split: option.splits if_splits)

lemma parse_missing:
  "t = [] \<or> is_missing (Some t) \<Longrightarrow> parse_metar_text (Some t) = Some Map.empty"
  by (auto simp: parse_metar_text_def truthy_def)

lemma parse_fields:
  assumes "t \<noteq> []" and "\<not> is_missing (Some t)"
  shows "\<exists>out. parse_metar_text (Some t) = Some out \<and>
      out ''visibility_raw'' =
        (case search vis_re (strip t) of None \<Rightarrow> None | Some m \<Rightarrow> Some (opt_pval (m 1))) \<and>
      out ''altimeter_A'' =
        (case search altimeter_re (strip t) of None \<Rightarrow> None | Some a \<Rightarrow> Some (opt_pval (a 1))) \<and>
      out ''wx_codes'' =
        (case findall wxcode_re (strip t @ '' '') of
           [] \<Rightarrow> None
         | w # ws \<Rightarrow> Some (VList (map (\<lambda>w. group_str w 2) (w # ws))))"
proof -
  obtain out0 where w: "wind_step (strip t) Map.empty = Some out0"
    using wind_step_total by blast
  have o: "out0 ''visibility_raw'' = None" "out0 ''altimeter_A'' = None" "out0 ''wx_codes'' = None"
    using wind_step_other[OF w] by simp_all
  have p: "parse_metar_text (Some t) =
      Some (wx_step (strip t) (cloud_step (strip t) (altimeter_step (strip t) (vis_step (strip t) out0))))"
    using assms w by (simp add: parse_metar_text_def truthy_def Let_def)
  show ?thesis
    unfolding p using o
    by (auto simp: wx_step_def cloud_step_def altimeter_step_def vis_step_def Let_def
        split: option.splits list.splits)
qed

subsection \<open>Trimming keeps what lies between two characters that are not blank\<close>

lemma strip_mid:
  assumes "w \<noteq> []" and "\<not> is_space (hd w)" and "\<not> is_space (last w)"
  shows "strip (u @ w @ v) = dropWhile is_space u @ w @ rev (dropWhile is_space (rev v))"
proof -
  obtain x w' where w: "w = x # w'" using assms(1) by (cases w) auto
  with assms(2) have x: "\<not> is_space x" by simp
  have 1: "dropWhile is_space (u @ w @ v) = dropWhile is_space u @ w @ v"
    using x by (simp add: w dropWhile_append3)
  obtain w'' y where wr: "w = w'' @ [y]" using assms(1) by (cases w rule: rev_cases) auto
  with assms(3) have y: "\<not> is_space y" by simp
  have "rev (dropWhile is_space u @ w @ v) = rev v @ y # rev w'' @ rev (dropWhile is_space u)"
    by (simp add: wr)
  then have "dropWhile is_space (rev (dropWhile is_space u @ w @ v))
      = dropWhile is_space (rev v) @ y # rev w'' @ rev (dropWhile is_space u)"
    using y by (simp add: dropWhile_append3)
  then show ?thesis
    unfolding strip_def 1 by (simp add: wr)
qed

lemma sublist_trans: "sublist a b \<Longrightarrow> sublist b c \<Longrightarrow> sublist a c"
proof -
  assume "sublist a b" "sublist b c"
  then obtain p1 s1 p2 s2 where "b = p1 @ a @ s1" "c = p2 @ b @ s2"
    by (auto simp: sublist_def)
  then have "c = (p2 @ p1) @ a @ (s1 @ s2)" by simp
  then show ?thesis unfolding sublist_def by blast
qed

lemma strip_sublist: "sublist (strip t) t"
proof -
  define y where "y = dropWhile is_space t"
  have 1: "t = takeWhile is_space t @ y" by (simp add: y_def)
  have "rev (dropWhile is_space (rev y)) @ rev (takeWhile is_space (rev y))
          = rev (takeWhile is_space (rev y) @ dropWhile is_space (rev y))"
    by (simp only: rev_append)
  also have "\<dots> = y"
    by (simp only: takeWhile_dropWhile_id rev_rev_ident)
  finally have 2: "y = strip t @ rev (takeWhile is_space (rev y))"
    unfolding strip_def y_def by (rule sym)
  from 1 2 have "t = takeWhile is_space t @ strip t @ rev (takeWhile is_space (rev y))"
    by simp
  then show ?thesis unfolding sublist_def by blast
qed

lemma strip_keeps:
  assumes "w \<noteq> []" and "\<not> is_space (hd w)" and "\<not> is_space (last w)" and "sublist w t"
  shows "sublist w (strip t)"
proof -
  from assms(4) obtain u v where "t = u @ w @ v" by (auto simp: sublist_def)
  with strip_mid[OF assms(1-3), of u v] show ?thesis by simp
qed

subsection \<open>Literal strings\<close>

lemmas re_eval = search_def match_at_def rmatch.simps lits_def rep_range_def eval_nat_numeral is_digit_def

lemma lits_simps:
  "lits [] = REps" "lits [c] = RLit c" "lits (c # d # w) = RSeq (RLit c) (lits (d # w))"
  by (simp_all add: lits_def)

lemma mem_lits:
  "(p', s', g') \<in> set (rmatch (lits w) (p, s, g)) \<longleftrightarrow>
     s = w @ s' \<and> g' = g \<and> p' = prev_char p w"
proof (induction w arbitrary: p s)
  case Nil
  show ?case by (auto simp: lits_simps rmatch.simps prev_char_def)
next
  case (Cons c w)
  show ?case
  proof (cases w)
    case Nil
    then show ?thesis by (auto simp: lits_simps mem_lit prev_char_def)
  next
    case (Cons d w')
    have "(p', s', g') \<in> set (rmatch (lits (c # d # w')) (p, s, g)) \<longleftrightarrow>
            (\<exists>s1. s = c # s1 \<and> (p', s', g') \<in> set (rmatch (lits (d # w')) (Some c, s1, g)))"
      unfolding lits_simps mem_Seq by (auto simp: mem_lit)
    also have "\<dots> \<longleftrightarrow> (\<exists>s1. s = c # s1 \<and> s1 = (d # w') @ s' \<and> g' = g \<and> p' = prev_char (Some c) (d # w'))"
      using Cons.IH[of "Some c"] Cons by simp
    also have "\<dots> \<longleftrightarrow> s = (c # d # w') @ s' \<and> g' = g \<and> p' = prev_char p (c # d # w')"
      by (auto simp: prev_char_def)
    finally show ?thesis using Cons by simp
  qed
qed


subsection \<open>The visibility entry\<close>



lemma parse_field_eqs:
  assumes "t \<noteq> []" and "\<not> is_missing (Some t)"
  shows "parse_metar_text (Some t) \<noteq> None"
    and "field (parse_metar_text (Some t)) ''visibility_raw'' =
        (case search vis_re (strip t) of None \<Rightarrow> None | Some m \<Rightarrow> Some (opt_pval (m 1)))"
    and "field (parse_metar_text (Some t)) ''altimeter_A'' =
        (case search altimeter_re (strip t) of None \<Rightarrow> None | Some a \<Rightarrow> Some (opt_pval (a 1)))"
    and "field (parse_metar_text (Some t)) ''wx_codes'' =
        (case findall wxcode_re (strip t @ '' '') of
           [] \<Rightarrow> None
         | w # ws \<Rightarrow> Some (VList (map (\<lambda>w. group_str w 2) (w # ws))))"
  using parse_fields[OF assms] by (auto simp: field_def)

lemma not_missing_by_char:
  assumes "sublist w (strip t)" and "c \<in> set w" and "c \<notin> set ''MNAone''"
  shows "t \<noteq> []" and "\<not> is_missing (Some t)"
proof -
  from assms(1,2) have c: "c \<in> set (strip t)" using set_mono_sublist by blast
  then show "t \<noteq> []" by (auto simp: strip_def)
  from c assms(3) show "\<not> is_missing (Some t)" by (auto simp: is_missing_def)
qed





subsection \<open>The altimeter entry\<close>

lemma mem_Seq_cls:
  "(p', s', g') \<in> set (rmatch (RSeq (RCls P) b) (p, s, g)) \<longleftrightarrow>
     (\<exists>x r. s = x # r \<and> P x \<and> (p', s', g') \<in> set (rmatch b (Some x, r, g)))"
  by (auto simp: rmatch.simps split: list.splits)

lemma mem_Seq_lit:
  "(p', s', g') \<in> set (rmatch (RSeq (RLit c) b) (p, s, g)) \<longleftrightarrow>
     (\<exists>r. s = c # r \<and> (p', s', g') \<in> set (rmatch b (Some c, r, g)))"
  by (auto simp: rmatch.simps split: list.splits)

lemma mem_digits4:
  "(p', s', g') \<in> set (rmatch (rep 4 digit) (p, s, g)) \<longleftrightarrow>
     (\<exists>d. s = d @ s' \<and> length d = 4 \<and> list_all is_digit d \<and> p' = Some (last d) \<and> g' = g)"
proof
  assume "(p', s', g') \<in> set (rmatch (rep 4 digit) (p, s, g))"
  then obtain a b c e where "s = [a, b, c, e] @ s'" "is_digit a" "is_digit b" "is_digit c"
    "is_digit e" "p' = Some e" "g' = g"
    unfolding rep_unfold by (auto simp: mem_Seq_cls mem_cls)
  then show "\<exists>d. s = d @ s' \<and> length d = 4 \<and> list_all is_digit d \<and> p' = Some (last d) \<and> g' = g"
    by (intro exI[of _ "[a, b, c, e]"]) simp
next
  assume "\<exists>d. s = d @ s' \<and> length d = 4 \<and> list_all is_digit d \<and> p' = Some (last d) \<and> g' = g"
  then obtain d where d: "s = d @ s'" "length d = 4" "list_all is_digit d" "p' = Some (last d)"
    "g' = g" by blast
  from d(2) obtain a b c e where "d = [a, b, c, e]"
    by (auto simp: eval_nat_numeral length_Suc_conv)
  with d show "(p', s', g') \<in> set (rmatch (rep 4 digit) (p, s, g))"
    unfolding rep_unfold by (simp add: mem_Seq_cls mem_cls)
qed

lemma altimeter_shape:
  "(p', s', g') \<in> set (rmatch (RGrp 0 altimeter_re) (p, s, Map.empty)) \<longleftrightarrow>
     (\<exists>d. s = CHR ''A'' # d @ s' \<and> length d = 4 \<and> list_all is_digit d \<and>
          p' = Some (last d) \<and> g' = [1 \<mapsto> d, 0 \<mapsto> CHR ''A'' # d])"
  unfolding altimeter_re_def
  by (auto simp: mem_Grp mem_Seq_lit mem_digits4)

lemma altimeter_matches:
  assumes "length d = 4" and "list_all is_digit d"
  shows "match_at altimeter_re False q (CHR ''A'' # d @ rest) \<noteq> []"
proof -
  have "(Some (last d), rest, [1 \<mapsto> d, 0 \<mapsto> CHR ''A'' # d])
      \<in> set (rmatch (RGrp 0 altimeter_re) (q, CHR ''A'' # d @ rest, Map.empty))"
    unfolding altimeter_shape using assms by blast
  then show ?thesis by (auto simp: match_at_def)
qed

lemma search_altimeter:
  "(\<exists>g. search altimeter_re s = Some g) \<longleftrightarrow>
     (\<exists>d. length d = 4 \<and> list_all is_digit d \<and> sublist (CHR ''A'' # d) s)"
  "search altimeter_re s = Some g \<Longrightarrow>
     \<exists>d. g 1 = Some d \<and> length d = 4 \<and> list_all is_digit d \<and> sublist (CHR ''A'' # d) s"
proof -
  have fwd: "\<exists>d. g 1 = Some d \<and> length d = 4 \<and> list_all is_digit d \<and> sublist (CHR ''A'' # d) s"
    if "search altimeter_re s = Some g" for g
  proof -
    from that obtain start p' s' where sf: "search_from altimeter_re False None s = Some (start, p', s', g)"
      by (auto simp: search_def)
    from search_from_start[OF sf] obtain u ms where u: "s = u @ start"
      and ma: "match_at altimeter_re False (prev_char None u) start = (p', s', g) # ms"
      by blast
    then have "(p', s', g) \<in> set (rmatch (RGrp 0 altimeter_re) (prev_char None u, start, Map.empty))"
      using match_at_mem[of "(p', s', g)" altimeter_re False "prev_char None u" start] by simp
    then obtain d where d: "start = CHR ''A'' # d @ s'" "length d = 4" "list_all is_digit d"
      "g = [1 \<mapsto> d, 0 \<mapsto> CHR ''A'' # d]"
      unfolding altimeter_shape by blast
    have "s = u @ (CHR ''A'' # d) @ s'" using u d(1) by simp
    then have "sublist (CHR ''A'' # d) s" unfolding sublist_def by blast
    with d show ?thesis by auto
  qed
  show "search altimeter_re s = Some g \<Longrightarrow>
     \<exists>d. g 1 = Some d \<and> length d = 4 \<and> list_all is_digit d \<and> sublist (CHR ''A'' # d) s"
    by (rule fwd)
  show "(\<exists>g. search altimeter_re s = Some g) \<longleftrightarrow>
     (\<exists>d. length d = 4 \<and> list_all is_digit d \<and> sublist (CHR ''A'' # d) s)"
  proof
    assume "\<exists>g. search altimeter_re s = Some g"
    with fwd show "\<exists>d. length d = 4 \<and> list_all is_digit d \<and> sublist (CHR ''A'' # d) s" by blast
  next
    assume "\<exists>d. length d = 4 \<and> list_all is_digit d \<and> sublist (CHR ''A'' # d) s"
    then obtain d u v where d: "length d = 4" "list_all is_digit d" and s: "s = u @ (CHR ''A'' # d) @ v"
      unfolding sublist_def by blast
    from altimeter_matches[OF d, of "prev_char None u" v]
    have "match_at altimeter_re False (prev_char None u) ((CHR ''A'' # d) @ v) \<noteq> []" by simp
    from search_from_found[OF this] show "\<exists>g. search altimeter_re s = Some g"
      unfolding s search_def by auto
  qed
qed

lemma digit_not_space: "is_digit c \<Longrightarrow> \<not> is_space c"
  by (auto simp: is_digit_def is_space_def Let_def)

lemma digit_not_missing: "is_digit c \<Longrightarrow> c \<notin> set ''MNAone''"
  by (auto simp: is_digit_def)

lemma altimeter_token_strip:
  assumes "length d = 4" and "list_all is_digit d"
  shows "sublist (CHR ''A'' # d) (strip t) \<longleftrightarrow> sublist (CHR ''A'' # d) t"
proof
  assume "sublist (CHR ''A'' # d) (strip t)"
  then show "sublist (CHR ''A'' # d) t" using strip_sublist by (rule sublist_trans)
next
  assume a: "sublist (CHR ''A'' # d) t"
  from assms have "d \<noteq> []" by auto
  with assms(2) have "is_digit (last d)" by (simp add: list_all_iff)
  then have "\<not> is_space (last (CHR ''A'' # d))"
    using \<open>d \<noteq> []\<close> by (simp add: digit_not_space)
  moreover have "\<not> is_space (hd (CHR ''A'' # d))" by (simp add: is_space_def)
  ultimately show "sublist (CHR ''A'' # d) (strip t)"
    using strip_keeps[of "CHR ''A'' # d" t] a by simp
qed

text \<open>
  The entry and the occurrences of \<^verbatim>\<open>A\<close> with four digits, as pieces of the text.
\<close>

lemma altimeter_entry_sublist:
  "(field (parse_metar_text (Some metar)) ''altimeter_A'' \<noteq> None \<longleftrightarrow>
      (\<exists>d. length d = 4 \<and> list_all is_digit d \<and> sublist (CHR ''A'' # d) metar)) \<and>
   (\<forall>x. field (parse_metar_text (Some metar)) ''altimeter_A'' = Some x \<longrightarrow>
      (\<exists>d. x = VStr d \<and> length d = 4 \<and> list_all is_digit d \<and> sublist (CHR ''A'' # d) metar))"
proof (cases "metar = [] \<or> is_missing (Some metar)")
  case True
  then have e: "field (parse_metar_text (Some metar)) ''altimeter_A'' = None"
    by (simp add: parse_missing field_def)
  have "\<not> sublist (CHR ''A'' # d) metar" if d: "length d = 4" "list_all is_digit d" for d
  proof
    assume "sublist (CHR ''A'' # d) metar"
    then have s: "sublist (CHR ''A'' # d) (strip metar)"
      using altimeter_token_strip[OF d] by simp
    from d have "d \<noteq> []" by auto
    then have "hd d \<in> set (CHR ''A'' # d)" by simp
    moreover have "hd d \<notin> set ''MNAone''"
      using d(2) \<open>d \<noteq> []\<close> by (intro digit_not_missing) (simp add: list_all_iff)
    ultimately show False using not_missing_by_char[OF s] True by blast
  qed
  with e show ?thesis by auto
next
  case False
  then have nm: "metar \<noteq> []" "\<not> is_missing (Some metar)" by simp_all
  note eq = parse_field_eqs(3)[OF nm]
  show ?thesis
  proof (cases "search altimeter_re (strip metar)")
    case None
    then have "\<not> (\<exists>d. length d = 4 \<and> list_all is_digit d \<and> sublist (CHR ''A'' # d) (strip metar))"
      using search_altimeter(1)[of "strip metar"] by simp
    then have "\<not> (\<exists>d. length d = 4 \<and> list_all is_digit d \<and> sublist (CHR ''A'' # d) metar)"
      using altimeter_token_strip by blast
    with None eq show ?thesis by simp
  next
    case (Some g)
    from search_altimeter(2)[OF Some] obtain d where d: "g 1 = Some d" "length d = 4"
      "list_all is_digit d" "sublist (CHR ''A'' # d) (strip metar)" by blast
    then have "sublist (CHR ''A'' # d) metar" using altimeter_token_strip by blast
    with Some eq d show ?thesis by (auto simp: opt_pval_def)
  qed
qed

lemma strip_decomp:
  "\<exists>a b. t = a @ strip t @ b \<and> (\<forall>c \<in> set a. is_space c) \<and> (\<forall>c \<in> set b. is_space c)"
proof -
  define y where "y = dropWhile is_space t"
  have 1: "t = takeWhile is_space t @ y" by (simp add: y_def)
  have "rev (dropWhile is_space (rev y)) @ rev (takeWhile is_space (rev y))
          = rev (takeWhile is_space (rev y) @ dropWhile is_space (rev y))"
    by (simp only: rev_append)
  also have "\<dots> = y"
    by (simp only: takeWhile_dropWhile_id rev_rev_ident)
  finally have 2: "y = strip t @ rev (takeWhile is_space (rev y))"
    unfolding strip_def y_def by (rule sym)
  from 1 2 have "t = takeWhile is_space t @ strip t @ rev (takeWhile is_space (rev y))"
    by simp
  moreover have "\<forall>c \<in> set (takeWhile is_space t). is_space c"
    by (auto dest: set_takeWhileD)
  moreover have "\<forall>c \<in> set (rev (takeWhile is_space (rev y))). is_space c"
    by (auto dest: set_takeWhileD)
  ultimately show ?thesis by blast
qed

lemma occurrence_inside:
  assumes t: "a @ m @ b = u' @ w @ v'"
    and a: "\<forall>c \<in> set a. is_space c" and b: "\<forall>c \<in> set b. is_space c"
    and w: "w \<noteq> []" "\<forall>c \<in> set w. \<not> is_space c"
  shows "\<exists>u2 v2. u' = a @ u2 \<and> m = u2 @ w @ v2"
proof -
  from t obtain us where "(a = u' @ us \<and> us @ m @ b = w @ v') \<or> (a @ us = u' \<and> m @ b = us @ w @ v')"
    unfolding append_eq_append_conv2 by blast
  moreover have "us = []" if "a = u' @ us" "us @ m @ b = w @ v'"
  proof (rule ccontr)
    assume "us \<noteq> []"
    then obtain x xs where us: "us = x # xs" by (cases us) auto
    from w(1) obtain z zs where ws: "w = z # zs" by (cases w) auto
    from that(2) us ws have "x = z" by simp
    moreover from that(1) us a have "is_space x" by simp
    moreover from ws w(2) have "\<not> is_space z" by simp
    ultimately show False by simp
  qed
  ultimately obtain us where us: "u' = a @ us" "m @ b = (us @ w) @ v'" by auto
  from us(2) obtain vs where "(m = (us @ w) @ vs \<and> vs @ b = v') \<or> (m @ vs = us @ w \<and> b = vs @ v')"
    unfolding append_eq_append_conv2 by blast
  moreover have "vs = []" if "m @ vs = us @ w" "b = vs @ v'"
  proof (rule ccontr)
    assume ne: "vs \<noteq> []"
    from that(1) have "last (m @ vs) = last (us @ w)" by simp
    with ne w(1) have "last vs = last w" by simp
    moreover from that(2) ne b have "is_space (last vs)" by simp
    moreover from w have "\<not> is_space (last w)" by simp
    ultimately show False by simp
  qed
  ultimately obtain vs where "m = us @ w @ vs" by auto
  with us(1) show ?thesis by blast
qed

lemma search_altimeter_first:
  assumes "search altimeter_re s = Some g"
  shows "\<exists>u d v. s = u @ CHR ''A'' # d @ v \<and> g 1 = Some d \<and> length d = 4 \<and> list_all is_digit d \<and>
           (\<forall>u' d' v'. s = u' @ CHR ''A'' # d' @ v' \<and> length d' = 4 \<and> list_all is_digit d'
              \<longrightarrow> length u \<le> length u')"
proof -
  from assms obtain start p' s' where sf: "search_from altimeter_re False None s = Some (start, p', s', g)"
    by (auto simp: search_def)
  from search_from_start[OF sf] obtain u ms where u: "s = u @ start"
    and ma: "match_at altimeter_re False (prev_char None u) start = (p', s', g) # ms"
    and mn: "\<forall>u1 u2. u = u1 @ u2 \<and> u2 \<noteq> [] \<longrightarrow>
               match_at altimeter_re False (prev_char None u1) (u2 @ start) = []"
    by blast
  from ma have "(p', s', g) \<in> set (rmatch (RGrp 0 altimeter_re) (prev_char None u, start, Map.empty))"
    using match_at_mem[of "(p', s', g)" altimeter_re False "prev_char None u" start] by simp
  then obtain d where d: "start = CHR ''A'' # d @ s'" "length d = 4" "list_all is_digit d"
    "g = [1 \<mapsto> d, 0 \<mapsto> CHR ''A'' # d]"
    unfolding altimeter_shape by blast
  have "length u \<le> length u'"
    if o: "s = u' @ CHR ''A'' # d' @ v'" "length d' = 4" "list_all is_digit d'" for u' d' v'
  proof (rule ccontr)
    assume "\<not> length u \<le> length u'"
    then have l: "length u' < length u" by simp
    from u o(1) have e: "u @ start = u' @ CHR ''A'' # d' @ v'" by simp
    then obtain us where "(u = u' @ us \<and> us @ start = CHR ''A'' # d' @ v') \<or>
        (u @ us = u' \<and> start = us @ CHR ''A'' # d' @ v')"
      unfolding append_eq_append_conv2 by blast
    with l obtain u2 where u2: "u = u' @ u2" "u2 @ start = CHR ''A'' # d' @ v'" by auto
    with l have "u2 \<noteq> []" by auto
    with mn u2 have "match_at altimeter_re False (prev_char None u') (CHR ''A'' # d' @ v') = []"
      by metis
    with altimeter_matches[OF o(2,3)] show False by blast
  qed
  with u d show ?thesis by (intro exI[of _ u] exI[of _ d] exI[of _ s']) simp
qed

lemma altimeter_token_no_space:
  assumes "length d = 4" and "list_all is_digit d"
  shows "\<forall>c \<in> set (CHR ''A'' # d). \<not> is_space c"
proof
  fix c assume "c \<in> set (CHR ''A'' # d)"
  then consider "c = CHR ''A''" | "c \<in> set d" by auto
  then show "\<not> is_space c"
  proof cases
    case 1
    then show ?thesis by (simp add: is_space_def)
  next
    case 2
    with assms(2) have "is_digit c" by (simp add: list_all_iff)
    then show ?thesis by (rule digit_not_space)
  qed
qed

text \<open>
  Claim C5, as amended.  For every report text, the result of the text parser has an
  \<^verbatim>\<open>altimeter_A\<close> entry exactly when the text contains, anywhere, the letter \<^verbatim>\<open>A\<close>
  directly followed by four digits; the entry is then the string of the four digits that
  follow the first such \<^verbatim>\<open>A\<close> of the text, kept as a string and not divided.  The \<^verbatim>\<open>A\<close>
  and its digits need not be a token of their own: anything may come before the \<^verbatim>\<open>A\<close>,
  and more digits or letters may follow the fourth digit.
\<close>

theorem altimeter_entry:
  "(field (parse_metar_text (Some metar)) ''altimeter_A'' \<noteq> None \<longleftrightarrow>
      (\<exists>d. length d = 4 \<and> list_all is_digit d \<and> sublist (CHR ''A'' # d) metar)) \<and>
   (\<forall>x. field (parse_metar_text (Some metar)) ''altimeter_A'' = Some x \<longrightarrow>
      (\<exists>d. x = VStr d \<and> length d = 4 \<and> list_all is_digit d \<and> sublist (CHR ''A'' # d) metar)) \<and>
   (\<forall>x. field (parse_metar_text (Some metar)) ''altimeter_A'' = Some x \<longrightarrow>
      (\<exists>u d v. x = VStr d \<and> metar = u @ CHR ''A'' # d @ v \<and> length d = 4 \<and>
         list_all is_digit d \<and>
         (\<forall>u' d' v'. metar = u' @ CHR ''A'' # d' @ v' \<and> length d' = 4 \<and> list_all is_digit d'
            \<longrightarrow> length u \<le> length u')))"
proof (intro conjI)
  show "field (parse_metar_text (Some metar)) ''altimeter_A'' \<noteq> None \<longleftrightarrow>
      (\<exists>d. length d = 4 \<and> list_all is_digit d \<and> sublist (CHR ''A'' # d) metar)"
    using altimeter_entry_sublist[of metar] by blast
  show "\<forall>x. field (parse_metar_text (Some metar)) ''altimeter_A'' = Some x \<longrightarrow>
      (\<exists>d. x = VStr d \<and> length d = 4 \<and> list_all is_digit d \<and> sublist (CHR ''A'' # d) metar)"
    using altimeter_entry_sublist[of metar] by blast
  show "\<forall>x. field (parse_metar_text (Some metar)) ''altimeter_A'' = Some x \<longrightarrow>
      (\<exists>u d v. x = VStr d \<and> metar = u @ CHR ''A'' # d @ v \<and> length d = 4 \<and>
         list_all is_digit d \<and>
         (\<forall>u' d' v'. metar = u' @ CHR ''A'' # d' @ v' \<and> length d' = 4 \<and> list_all is_digit d'
            \<longrightarrow> length u \<le> length u'))"
  proof (intro allI impI)
    fix x assume x: "field (parse_metar_text (Some metar)) ''altimeter_A'' = Some x"
    have nm: "metar \<noteq> []" "\<not> is_missing (Some metar)"
      using x parse_missing[of metar] by (auto simp: field_def)
    from x parse_field_eqs(3)[OF nm] obtain g where g: "search altimeter_re (strip metar) = Some g"
      and xg: "x = opt_pval (g 1)"
      by (auto split: option.splits)
    from search_altimeter_first[OF g] obtain u d v where s: "strip metar = u @ CHR ''A'' # d @ v"
      and d: "g 1 = Some d" "length d = 4" "list_all is_digit d"
      and mn: "\<forall>u' d' v'. strip metar = u' @ CHR ''A'' # d' @ v' \<and> length d' = 4 \<and>
                 list_all is_digit d' \<longrightarrow> length u \<le> length u'"
      by blast
    from strip_decomp[of metar] obtain a b where ab: "metar = a @ strip metar @ b"
      "\<forall>c \<in> set a. is_space c" "\<forall>c \<in> set b. is_space c" by blast
    have m: "metar = (a @ u) @ CHR ''A'' # d @ (v @ b)"
      using ab(1) s by simp
    have "length (a @ u) \<le> length u'"
      if o: "metar = u' @ CHR ''A'' # d' @ v'" "length d' = 4" "list_all is_digit d'" for u' d' v'
    proof -
      have "a @ strip metar @ b = u' @ (CHR ''A'' # d') @ v'" using ab(1) o(1) by simp
      from occurrence_inside[OF this ab(2,3) _ altimeter_token_no_space[OF o(2,3)]]
      obtain u2 v2 where u2: "u' = a @ u2" "strip metar = u2 @ (CHR ''A'' # d') @ v2" by auto
      from u2(2) have "strip metar = u2 @ CHR ''A'' # d' @ v2" by simp
      with mn o(2,3) have "length u \<le> length u2" by blast
      with u2(1) show ?thesis by simp
    qed
    with m d xg show "\<exists>u d v. x = VStr d \<and> metar = u @ CHR ''A'' # d @ v \<and> length d = 4 \<and>
         list_all is_digit d \<and>
         (\<forall>u' d' v'. metar = u' @ CHR ''A'' # d' @ v' \<and> length d' = 4 \<and> list_all is_digit d'
            \<longrightarrow> length u \<le> length u')"
      by (intro exI[of _ "a @ u"] exI[of _ d] exI[of _ "v @ b"]) (simp add: opt_pval_def)
  qed
qed

text \<open>
  The theorem at the texts \<^verbatim>\<open>Q A2992 RMK\<close>, which stores \<^verbatim>\<open>2992\<close>, and \<^verbatim>\<open>A123 4\<close>, which
  has no entry.
\<close>

theorem altimeter_entry_witness:
  "field (parse_metar_text (Some ''Q A2992 RMK'')) ''altimeter_A'' = Some (VStr ''2992'') \<and>
   (\<exists>d. length d = 4 \<and> list_all is_digit d \<and> sublist (CHR ''A'' # d) ''Q A2992 RMK'') \<and>
   field (parse_metar_text (Some ''A123 4'')) ''altimeter_A'' = None \<and>
   \<not> (\<exists>d. length d = 4 \<and> list_all is_digit d \<and> sublist (CHR ''A'' # d) ''A123 4'')"
proof -
  have a: "field (parse_metar_text (Some ''Q A2992 RMK'')) ''altimeter_A'' = Some (VStr ''2992'')"
    by (subst parse_field_eqs(3))
      (simp_all add: is_missing_def strip_def is_space_def re_eval altimeter_re_def opt_pval_def)
  have c: "field (parse_metar_text (Some ''A123 4'')) ''altimeter_A'' = None"
    by (subst parse_field_eqs(3))
      (simp_all add: is_missing_def strip_def is_space_def re_eval altimeter_re_def opt_pval_def)
  from altimeter_entry[of "''Q A2992 RMK''", THEN conjunct1]
    altimeter_entry[of "''A123 4''", THEN conjunct1] a c
  show ?thesis by simp
qed

text \<open>
  Claim C5 as stated fails where the \<^verbatim>\<open>A\<close> and four digits are only a part of a token:
  in \<^verbatim>\<open>A12345\<close> the \<^verbatim>\<open>A\<close> is followed by five digits, in \<^verbatim>\<open>K +RA1234Z\<close> it ends a
  weather code and a letter follows the digits, and both texts get the entry \<^verbatim>\<open>1234\<close>.
\<close>

theorem altimeter_token_counterexample:
  "field (parse_metar_text (Some ''A12345'')) ''altimeter_A'' = Some (VStr ''1234'') \<and>
   field (parse_metar_text (Some ''K +RA1234Z'')) ''altimeter_A'' = Some (VStr ''1234'')"
proof -
  have a: "field (parse_metar_text (Some ''A12345'')) ''altimeter_A'' = Some (VStr ''1234'')"
    by (subst parse_field_eqs(3))
      (simp_all add: is_missing_def strip_def is_space_def re_eval altimeter_re_def opt_pval_def)
  have b: "field (parse_metar_text (Some ''K +RA1234Z'')) ''altimeter_A'' = Some (VStr ''1234'')"
    by (subst parse_field_eqs(3))
      (simp_all add: is_missing_def strip_def is_space_def re_eval altimeter_re_def opt_pval_def)
  from a b show ?thesis by simp
qed

subsection \<open>The weather codes\<close>

declare findall_from.simps [simp del]

lemma mem_alts:
  "x \<in> set (rmatch (alts rs) (p, s, g)) \<longleftrightarrow> (\<exists>r \<in> set rs. x \<in> set (rmatch r (p, s, g)))"
  by (induction rs rule: alts.induct) (auto simp: rmatch.simps split: list.splits)

lemma mem_wordb:
  "(p', s', g') \<in> set (rmatch RWordB (p, s, g)) \<longleftrightarrow>
     p' = p \<and> s' = s \<and> g' = g \<and>
     word_opt p \<noteq> word_opt (case s of [] \<Rightarrow> None | x # _ \<Rightarrow> Some x)"
  by (auto simp: rmatch.simps)

lemma mem_names:
  "(p', s', g') \<in> set (rmatch (alts (map lits wx_names)) (p, s, g)) \<longleftrightarrow>
     (\<exists>c \<in> set wx_names. s = c @ s' \<and> g' = g \<and> p' = prev_char p c)"
  unfolding mem_alts by (auto simp: mem_lits)

lemma wx_names_all:
  "list_all (\<lambda>c. length c = 2 \<and> hd c \<notin> {CHR '' '', CHR ''-'', CHR ''+''} \<and> last c \<noteq> CHR '' '' \<and>
      is_word (last c)) wx_names"
  by (simp add: wx_names_def is_word_def Let_def)

lemma wx_names_shape:
  assumes "c \<in> set wx_names"
  shows "\<exists>a b. c = [a, b] \<and> a \<notin> {CHR '' '', CHR ''-'', CHR ''+''} \<and> b \<noteq> CHR '' '' \<and> is_word b"
proof -
  from assms wx_names_all have p: "length c = 2" "hd c \<notin> {CHR '' '', CHR ''-'', CHR ''+''}"
    "last c \<noteq> CHR '' ''" "is_word (last c)"
    by (simp_all add: list_all_iff)
  from p(1) obtain a b where "c = [a, b]"
    by (auto simp: eval_nat_numeral length_Suc_conv)
  with p show ?thesis by simp
qed

lemma mem_sign:
  "(p1, s1, g1) \<in> set (rmatch (ROpt (RGrp 1 (RAlt (RLit CHR ''-'') (RLit CHR ''+'')))) (p, s, g))
     \<Longrightarrow> \<exists>sg \<in> wx_signs. s = sg @ s1 \<and> g1 2 = g 2"
  unfolding mem_Opt mem_Grp mem_Alt mem_lit wx_signs_def by auto

lemma wx_shape:
  assumes "(p', s', g') \<in> set (rmatch (RGrp 0 wxcode_re) (p, s, Map.empty))"
  shows "\<exists>sg cd. s = CHR '' '' # sg @ cd @ s' \<and> sg \<in> wx_signs \<and> cd \<in> set wx_names \<and>
           g' 2 = Some cd \<and> p' = Some (last cd)"
proof -
  define SIGN where "SIGN = ROpt (RGrp 1 (RAlt (RLit CHR ''-'') (RLit CHR ''+'')))"
  define NAME where "NAME = RGrp 2 (alts (map lits wx_names))"
  have w: "wxcode_re = RSeq (RLit CHR '' '') (RSeq SIGN (RSeq NAME RWordB))"
    by (simp add: wxcode_re_def SIGN_def NAME_def)
  from assms obtain g0 where "(p', s', g0) \<in> set (rmatch wxcode_re (p, s, Map.empty))"
    and g': "g' = g0(0 \<mapsto> take (length s - length s') s)"
    unfolding mem_Grp by blast
  then obtain r where s: "s = CHR '' '' # r"
    and 1: "(p', s', g0) \<in> set (rmatch (RSeq SIGN (RSeq NAME RWordB)) (Some CHR '' '', r, Map.empty))"
    unfolding w mem_Seq_lit by blast
  from 1 obtain m1 where m1: "m1 \<in> set (rmatch SIGN (Some CHR '' '', r, Map.empty))"
    and 2: "(p', s', g0) \<in> set (rmatch (RSeq NAME RWordB) m1)"
    by (subst (asm) mem_Seq) blast
  obtain p1 s1 g1 where e1: "m1 = (p1, s1, g1)" by (cases m1)
  from m1 e1 obtain sg where sg: "sg \<in> wx_signs" "r = sg @ s1"
    using mem_sign[of p1 s1 g1 "Some CHR '' ''" r Map.empty] unfolding SIGN_def by blast
  from 2 obtain m2 where m2: "m2 \<in> set (rmatch NAME m1)"
    and 3: "(p', s', g0) \<in> set (rmatch RWordB m2)"
    by (subst (asm) mem_Seq) blast
  obtain p2 s2 g2 where e2: "m2 = (p2, s2, g2)" by (cases m2)
  from 3 e2 have e3: "p' = p2" "s' = s2" "g0 = g2" by (simp_all add: mem_wordb)
  from m2[unfolded e1 e2 NAME_def mem_Grp mem_names]
  obtain cd where cd: "cd \<in> set wx_names" "s1 = cd @ s2"
    "g2 = g1(2 \<mapsto> take (length s1 - length s2) s1)" "p2 = prev_char p1 cd"
    by blast
  from wx_names_shape[OF cd(1)] have "cd \<noteq> []" by auto
  then have "p2 = Some (last cd)" using cd(4) by (simp add: prev_char_def)
  moreover have "g' 2 = Some cd" using g' e3 cd by simp
  ultimately show ?thesis using s sg cd e3 by auto
qed

lemma wx_match:
  assumes "code \<in> set wx_names" and "sign \<in> wx_signs"
  shows "match_at wxcode_re False q (CHR '' '' # sign @ code @ '' '') \<noteq> []"
proof -
  define SIGN where "SIGN = ROpt (RGrp 1 (RAlt (RLit CHR ''-'') (RLit CHR ''+'')))"
  define NAME where "NAME = RGrp 2 (alts (map lits wx_names))"
  have w: "wxcode_re = RSeq (RLit CHR '' '') (RSeq SIGN (RSeq NAME RWordB))"
    by (simp add: wxcode_re_def SIGN_def NAME_def)
  from wx_names_shape[OF assms(1)] obtain a b where c: "code = [a, b]" "is_word b" by blast
  have "\<exists>g1. (prev_char (Some CHR '' '') sign, code @ '' '', g1)
          \<in> set (rmatch SIGN (Some CHR '' '', sign @ code @ '' '', Map.empty))"
    using assms(2) unfolding SIGN_def mem_Opt mem_Grp mem_Alt mem_lit wx_signs_def
    by (auto simp: prev_char_def)
  then obtain g1 where 1: "(prev_char (Some CHR '' '') sign, code @ '' '', g1)
          \<in> set (rmatch SIGN (Some CHR '' '', sign @ code @ '' '', Map.empty))" by blast
  define g2 where "g2 = g1(2 \<mapsto> take (length (code @ '' '') - length '' '') (code @ '' ''))"
  have 2: "(Some b, '' '', g2) \<in> set (rmatch NAME (prev_char (Some CHR '' '') sign, code @ '' '', g1))"
    unfolding NAME_def mem_Grp mem_names g2_def using assms(1) c
    by (auto simp: prev_char_def)
  have 3: "(Some b, '' '', g2) \<in> set (rmatch RWordB (Some b, '' '', g2))"
    using c(2) by (simp add: mem_wordb word_opt_def is_word_def)
  have "(Some b, '' '', g2) \<in> set (rmatch (RSeq NAME RWordB) (prev_char (Some CHR '' '') sign, code @ '' '', g1))"
    by (subst mem_Seq) (use 2 3 in blast)
  with 1 have "(Some b, '' '', g2) \<in> set (rmatch (RSeq SIGN (RSeq NAME RWordB))
       (Some CHR '' '', sign @ code @ '' '', Map.empty))"
    by (subst mem_Seq) blast
  then have "(Some b, '' '', g2) \<in> set (rmatch wxcode_re (q, CHR '' '' # sign @ code @ '' '', Map.empty))"
    unfolding w mem_Seq_lit by simp
  then have "\<exists>g. (Some b, '' '', g)
      \<in> set (rmatch (RGrp 0 wxcode_re) (q, CHR '' '' # sign @ code @ '' '', Map.empty))"
    unfolding mem_Grp by blast
  then show ?thesis by (auto simp: match_at_def)
qed

lemma wx_no_short:
  assumes "length s < 3"
  shows "match_at wxcode_re False p s = []"
proof (cases "match_at wxcode_re False p s")
  case Nil
  then show ?thesis .
next
  case (Cons m ms)
  obtain p' s' g' where e: "m = (p', s', g')" by (cases m)
  from Cons e have "(p', s', g') \<in> set (rmatch (RGrp 0 wxcode_re) (p, s, Map.empty))"
    using match_at_mem[of m wxcode_re False p s] by simp
  from wx_shape[OF this] obtain sg cd where s: "s = CHR '' '' # sg @ cd @ s'"
    and cd: "cd \<in> set wx_names" by blast
  from wx_names_shape[OF cd] have "length cd = 2" by auto
  with s assms show ?thesis by simp
qed

lemma findall_wx_tail: "findall_from wxcode_re False p '' '' = []"
  by (subst findall_from.simps) (simp add: wx_no_short)

lemma wx_unique:
  assumes "sign \<in> wx_signs" and "sg \<in> wx_signs" and "code \<in> set wx_names"
    and "cd \<in> set wx_names" and "sign @ code @ t = sg @ cd @ s'"
  shows "sg = sign \<and> cd = code \<and> s' = t"
proof -
  from wx_names_shape[OF assms(3)] obtain a b where 1: "code = [a, b]"
    "a \<notin> {CHR '' '', CHR ''-'', CHR ''+''}" by blast
  from wx_names_shape[OF assms(4)] obtain c d where 2: "cd = [c, d]"
    "c \<notin> {CHR '' '', CHR ''-'', CHR ''+''}" by blast
  from assms(1,2,5) 1 2 show ?thesis by (auto simp: wx_signs_def)
qed

lemma no_char_prefix:
  "k @ s' = u1 @ c # t \<Longrightarrow> c \<notin> set k \<Longrightarrow> \<exists>u2. u1 = k @ u2 \<and> s' = u2 @ c # t"
proof (induction k arbitrary: u1)
  case Nil
  then show ?case by simp
next
  case (Cons x k)
  from Cons.prems obtain u1' where u1: "u1 = x # u1'" by (cases u1) auto
  with Cons.prems have "k @ s' = u1' @ c # t" "c \<notin> set k" by simp_all
  from Cons.IH[OF this] u1 show ?case by simp
qed

lemma wx_body_no_space:
  assumes "sg \<in> wx_signs" and "cd \<in> set wx_names"
  shows "CHR '' '' \<notin> set (sg @ cd)"
proof -
  from wx_names_shape[OF assms(2)] obtain a b where "cd = [a, b]" "a \<noteq> CHR '' ''" "b \<noteq> CHR '' ''"
    by auto
  with assms(1) show ?thesis by (auto simp: wx_signs_def)
qed

lemma findall_wx_last:
  assumes code: "code \<in> set wx_names" and sign: "sign \<in> wx_signs"
  shows "\<exists>gs g. findall_from wxcode_re False p (u @ CHR '' '' # sign @ code @ '' '') = gs @ [g] \<and>
           g 2 = Some code"
proof (induction u arbitrary: p rule: length_induct)
  case (1 u)
  define T where "T = CHR '' '' # sign @ code @ '' ''"
  have mT: "match_at wxcode_re False q T \<noteq> []" for q
    unfolding T_def using wx_match[OF code sign] .
  from search_from_found[OF mT[of "prev_char p u"]] obtain start p' s' g
    where sf: "search_from wxcode_re False p (u @ T) = Some (start, p', s', g)"
    by (metis prod_cases4)
  from search_from_start[OF sf] obtain u0 ms where u0: "u @ T = u0 @ start"
    and ma: "match_at wxcode_re False (prev_char p u0) start = (p', s', g) # ms"
    and mn: "\<forall>u1 u2. u0 = u1 @ u2 \<and> u2 \<noteq> [] \<longrightarrow>
               match_at wxcode_re False (prev_char p u1) (u2 @ start) = []"
    by blast
  from ma have "(p', s', g) \<in> set (rmatch (RGrp 0 wxcode_re) (prev_char p u0, start, Map.empty))"
    using match_at_mem[of "(p', s', g)" wxcode_re False "prev_char p u0" start] by simp
  from wx_shape[OF this] obtain sg cd where st: "start = CHR '' '' # sg @ cd @ s'"
    and sg: "sg \<in> wx_signs" and cd: "cd \<in> set wx_names" and g2: "g 2 = Some cd"
    by blast
  have ne: "length s' \<noteq> length start" using st by simp
  have fa: "findall_from wxcode_re False p (u @ T) = g # findall_from wxcode_re False p' s'"
    by (subst findall_from.simps) (simp add: sf ne)
  from u0 obtain w where "(u = u0 @ w \<and> w @ T = start) \<or> (u @ w = u0 \<and> T = w @ start)"
    unfolding append_eq_append_conv2 by blast
  moreover have "w = []" if "u @ w = u0" "T = w @ start"
  proof (rule ccontr)
    assume "w \<noteq> []"
    with mn that have "match_at wxcode_re False (prev_char p u) T = []" by blast
    with mT show False by blast
  qed
  ultimately obtain w where w: "u = u0 @ w" "start = w @ T" by auto
  show ?case
  proof (cases w)
    case Nil
    with w st have "sign @ code @ '' '' = sg @ cd @ s'" by (simp add: T_def)
    from wx_unique[OF sign sg code cd this] have "cd = code" "s' = '' ''" by simp_all
    with fa g2 have "findall_from wxcode_re False p (u @ T) = [] @ [g] \<and> g 2 = Some code"
      by (simp add: findall_wx_tail)
    then show ?thesis unfolding T_def by blast
  next
    case (Cons x w1)
    with w st have "(sg @ cd) @ s' = w1 @ CHR '' '' # sign @ code @ '' ''"
      by (simp add: T_def)
    from no_char_prefix[OF this wx_body_no_space[OF sg cd]]
    obtain u2 where u2: "w1 = (sg @ cd) @ u2" "s' = u2 @ T" unfolding T_def by blast
    have "length u2 < length u" using w(1) Cons u2(1) by simp
    with 1 obtain gs g' where "findall_from wxcode_re False p' (u2 @ T) = gs @ [g']"
      "g' 2 = Some code" unfolding T_def by blast
    with fa u2 have "findall_from wxcode_re False p (u @ T) = (g # gs) @ [g'] \<and> g' 2 = Some code"
      by simp
    then show ?thesis unfolding T_def by blast
  qed
qed

lemma strip_tail_word:
  assumes "\<exists>c \<in> set P. \<not> is_space c" and "w \<noteq> []" and "\<not> is_space (last w)"
  shows "strip (P @ w) = dropWhile is_space P @ w" and "dropWhile is_space P \<noteq> []"
proof -
  from assms(1) show ne: "dropWhile is_space P \<noteq> []" by (auto simp: dropWhile_eq_Nil_conv)
  from assms(1) have 1: "dropWhile is_space (P @ w) = dropWhile is_space P @ w"
    by (auto simp: dropWhile_append1)
  obtain w' y where wr: "w = w' @ [y]" using assms(2) by (cases w rule: rev_cases) auto
  with assms(3) have y: "\<not> is_space y" by simp
  have "rev (dropWhile is_space P @ w) = y # rev w' @ rev (dropWhile is_space P)"
    by (simp add: wr)
  then have "dropWhile is_space (rev (dropWhile is_space P @ w)) = rev (dropWhile is_space P @ w)"
    using y by simp
  then show "strip (P @ w) = dropWhile is_space P @ w"
    unfolding strip_def 1 by simp
qed

text \<open>
  Claim C7, as amended.  For every report text that ends with a space, an optional
  intensity prefix and a weather-phenomenon code, with no character after it, and that has
  at least one non-blank character before that space, the text parser stores a
  \<^verbatim>\<open>wx_codes\<close> list whose last element is that code without its prefix; the codes
  captured earlier in the text come before it.
\<close>

theorem wx_code_at_end:
  assumes "code \<in> set wx_names" and "sign \<in> {[], ''-'', ''+''}"
    and "\<exists>c \<in> set P. \<not> is_space c"
  shows "\<exists>cs. field (parse_metar_text (Some (P @ '' '' @ sign @ code))) ''wx_codes''
           = Some (VList (cs @ [code]))"
proof -
  define t where "t = P @ '' '' @ sign @ code"
  from assms(2) have sign: "sign \<in> wx_signs" by (simp add: wx_signs_def)
  from wx_names_shape[OF assms(1)] obtain a b where c: "code = [a, b]" "b \<noteq> CHR '' ''" "is_word b"
    by blast
  have "\<not> is_space b" using c(3) by (auto simp: is_word_def is_space_def Let_def)
  then have l: "\<not> is_space (last ('' '' @ sign @ code))" using c(1) by simp
  have s: "strip t = dropWhile is_space P @ '' '' @ sign @ code"
    and ne: "dropWhile is_space P \<noteq> []"
    unfolding t_def using strip_tail_word[OF assms(3) _ l] by simp_all
  have "sublist (strip t) (strip t)" by simp
  moreover have "CHR '' '' \<in> set (strip t)" unfolding s by simp
  ultimately have nm: "t \<noteq> []" "\<not> is_missing (Some t)"
    using not_missing_by_char[of "strip t" t "CHR '' ''"] by simp_all
  from findall_wx_last[OF assms(1) sign, of None "dropWhile is_space P"]
  obtain gs g where f: "findall wxcode_re (strip t @ '' '') = gs @ [g]" and g: "g 2 = Some code"
    unfolding findall_def s by auto
  have "field (parse_metar_text (Some t)) ''wx_codes''
      = Some (VList (map (\<lambda>w. group_str w 2) (gs @ [g])))"
    unfolding parse_field_eqs(4)[OF nm] f by (cases gs) simp_all
  also have "\<dots> = Some (VList (map (\<lambda>w. group_str w 2) gs @ [code]))"
    using g by (simp add: group_str_def)
  finally show ?thesis unfolding t_def by blast
qed

lemmas wx_eval = findall_def findall_from.simps re_eval wxcode_re_def wx_names_def
  word_opt_def is_word_def Let_def

text \<open>
  The theorem at the text \<^verbatim>\<open>K +TS -RA\<close>: the list is \<^verbatim>\<open>TS\<close>, then \<^verbatim>\<open>RA\<close>.
\<close>

theorem wx_code_at_end_witness:
  "''RA'' \<in> set wx_names \<and> (\<exists>c \<in> set ''K +TS''. \<not> is_space c) \<and>
   (\<exists>cs. field (parse_metar_text (Some ''K +TS -RA'')) ''wx_codes'' = Some (VList (cs @ [''RA'']))) \<and>
   field (parse_metar_text (Some ''K +TS -RA'')) ''wx_codes'' = Some (VList [''TS'', ''RA''])"
proof -
  have a: "''RA'' \<in> set wx_names" by (simp add: wx_names_def)
  have b: "\<exists>c \<in> set ''K +TS''. \<not> is_space c" by (simp add: is_space_def)
  have s: "strip ''K +TS -RA'' = ''K +TS -RA''" by (simp add: strip_def is_space_def)
  have f: "map (\<lambda>w. group_str w 2) (findall wxcode_re ''K +TS -RA '') = [''TS'', ''RA'']"
    by (simp add: wx_eval group_str_def)
  have c: "field (parse_metar_text (Some ''K +TS -RA'')) ''wx_codes'' = Some (VList [''TS'', ''RA''])"
    using f by (subst parse_field_eqs(4)) (auto simp: is_missing_def s split: list.splits)
  from wx_code_at_end[of "''RA''" "''-''" "''K +TS''"] a b c show ?thesis by simp
qed

text \<open>
  Claim C7 as stated fails when nothing but the space comes before the code: the text
  \<^verbatim>\<open> -RA\<close> is trimmed to \<^verbatim>\<open>-RA\<close> before the search, the pattern asks for a space in
  front of the code, and no \<^verbatim>\<open>wx_codes\<close> entry is stored.
\<close>

theorem wx_code_alone_counterexample:
  "''RA'' \<in> set wx_names \<and> parse_metar_text (Some '' -RA'') \<noteq> None \<and>
   field (parse_metar_text (Some '' -RA'')) ''wx_codes'' = None"
proof -
  have a: "''RA'' \<in> set wx_names" by (simp add: wx_names_def)
  have s: "strip '' -RA'' = ''-RA''" by (simp add: strip_def is_space_def)
  have nm: "'' -RA'' \<noteq> []" "\<not> is_missing (Some '' -RA'')"
    by (simp_all add: is_missing_def s)
  have f: "findall wxcode_re ''-RA '' = []" by (simp add: wx_eval)
  from parse_field_eqs(1,4)[OF nm] a f show ?thesis by (simp add: s)
qed

end
